theory Spec2Isabelle
  imports
    Main
    "HOL-Library.Word"
    "HOL-Library.Char_ord"
    "HOL-Library.List_Lexorder"
    "HOL-Library.Multiset"
begin

chapter \<open>eTree: the traversal-and-render engine\<close>

text \<open>
  A shallow embedding of \<^verbatim>\<open>etree.cpp\<close> (with the parts of \<^verbatim>\<open>etree.h\<close>, \<^verbatim>\<open>args.h\<close>
  and \<^verbatim>\<open>main.cpp\<close> it relies on).  The file system is a finite tree of nodes, the two
  output streams are lists of lines, and the statistics aggregate is passed from call to
  call as the C++ passes it by reference.  The walker comes twice: first on trees whose
  status queries succeed, where it is a total function on the state, then with the
  exceptions of \<^verbatim>\<open>std::filesystem\<close>, where a run can end in \<^verbatim>\<open>std::terminate\<close>.
\<close>

section \<open>The console RTL shaper (Windows build)\<close>

text \<open>
  \<^verbatim>\<open>wchar_t\<close> is a 16-bit code unit on Windows, a \<^verbatim>\<open>std::wstring\<close> a list of them.
\<close>

type_synonym wchar = "16 word"

definition is_arabic :: "wchar \<Rightarrow> bool" where
  "is_arabic c =
     ((0x0590 \<le> c \<and> c \<le> 0x08FF) \<or> (0xFB50 \<le> c \<and> c \<le> 0xFDFF) \<or>
      (0xFE70 \<le> c \<and> c \<le> 0xFEFF))"

definition contains_rtl :: "wchar list \<Rightarrow> bool" where
  "contains_rtl s = list_ex is_arabic s"

text \<open>
  The inner \<^verbatim>\<open>while (!buf.empty() && buf.back() == L' ')\<close> loop: it pops the trailing
  spaces of \<open>buf\<close> one by one and collects them in \<open>trailing_spaces\<close>.
\<close>

function strip_trailing :: "wchar list \<Rightarrow> wchar list \<Rightarrow> wchar list \<times> wchar list" where
  "strip_trailing buf trailing_spaces =
     (if buf \<noteq> [] \<and> last buf = 0x20
      then strip_trailing (butlast buf) (trailing_spaces @ [0x20])
      else (buf, trailing_spaces))"
  by pat_completeness auto
termination
  by (relation "measure (\<lambda>(buf, trailing_spaces). length buf)") auto

declare strip_trailing.simps [simp del]

text \<open>
  Flushing the buffer, as both the loop body and the code after the loop do it: an RTL
  buffer loses its trailing spaces, is reversed, and gets the spaces back; any other
  buffer is appended as it is.
\<close>

definition flush_buf :: "wchar list \<Rightarrow> wchar list \<Rightarrow> bool \<Rightarrow> wchar list" where
  "flush_buf res buf buf_has_rtl =
     (if buf_has_rtl
      then (case strip_trailing buf [] of
              (buf', trailing_spaces) \<Rightarrow> res @ rev buf' @ trailing_spaces)
      else res @ buf)"

text \<open>The \<^verbatim>\<open>for (wchar_t c : s)\<close> loop over the state \<open>(res, buf, buf_has_rtl)\<close>.\<close>

fun wrap_loop :: "wchar list \<Rightarrow> wchar list \<Rightarrow> wchar list \<Rightarrow> bool \<Rightarrow> wchar list \<times> wchar list \<times> bool" where
  "wrap_loop [] res buf buf_has_rtl = (res, buf, buf_has_rtl)"
| "wrap_loop (c # s) res buf buf_has_rtl =
     (if is_arabic c then wrap_loop s res (buf @ [c]) True
      else if c = 0x20 then wrap_loop s res (buf @ [c]) buf_has_rtl
      else wrap_loop s (flush_buf res buf buf_has_rtl @ [c]) [] False)"

definition wrap_rtl :: "wchar list \<Rightarrow> wchar list" where
  "wrap_rtl s =
     (case wrap_loop s [] [] False of
        (res, buf, buf_has_rtl) \<Rightarrow> flush_buf res buf buf_has_rtl)"

subsection \<open>Evaluating the shaper\<close>

lemma strip_trailing_Nil: "strip_trailing [] ts = ([], ts)"
  by (simp add: strip_trailing.simps)

lemma strip_trailing_snoc:
  "strip_trailing (buf @ [c]) ts =
     (if c = 0x20 then strip_trailing buf (ts @ [0x20]) else (buf @ [c], ts))"
  by (subst strip_trailing.simps) simp

lemma strip_trailing_Cons_snoc:
  "strip_trailing (b # buf @ [c]) ts =
     (if c = 0x20 then strip_trailing (b # buf) (ts @ [0x20]) else (b # buf @ [c], ts))"
  using strip_trailing_snoc [of "b # buf" c ts] by simp

lemma strip_trailing_single:
  "strip_trailing [c] ts = (if c = 0x20 then ([], ts @ [0x20]) else ([c], ts))"
  using strip_trailing_snoc [of "[]" c ts] by (simp add: strip_trailing_Nil)

text \<open>
  The example of the function's own documentation, \<^verbatim>\<open>"Hello <RTL> World"\<close> becoming
  \<^verbatim>\<open>"Hello <reversed RTL> World"\<close>, in short: \<^verbatim>\<open>H\<close>, a space, Alef, Bet, a space, \<^verbatim>\<open>W\<close>.
  The documentation keeps the space in front of the run where it is; the code moves it
  behind the run.
\<close>

lemma wrap_rtl_documented_example:
  "wrap_rtl [0x48, 0x20, 0x05D0, 0x05D1, 0x20, 0x57] = [0x48, 0x05D1, 0x05D0, 0x20, 0x20, 0x57]"
  by code_simp

text \<open>
  Claim C7 (every string is restored by shaping it twice) fails on the code.  The name
  made of a space followed by the Hebrew letter Alef (U+05D0) is shaped into Alef followed
  by a space: the space in front of the right-to-left run is part of the buffer and is
  moved behind the run by the reversal.  Shaping the result again strips that space as a
  trailing one and puts it back, so the second pass returns Alef-space again and not the
  original.  The function's own documentation gives the example
  \<^verbatim>\<open>"Hello <RTL> World"\<close> becoming \<^verbatim>\<open>"Hello <LTR> World"\<close>, with the space in front of the
  run kept in place, which is what an involution needs.
\<close>

theorem wrap_rtl_twice_differs:
  "wrap_rtl [0x20, 0x05D0] = [0x05D0, 0x20] \<and>
   wrap_rtl (wrap_rtl [0x20, 0x05D0]) = [0x05D0, 0x20] \<and>
   wrap_rtl (wrap_rtl [0x20, 0x05D0]) \<noteq> [0x20, 0x05D0]"
  by (simp add: wrap_rtl_def flush_buf_def is_arabic_def
      strip_trailing_Nil strip_trailing_single strip_trailing_Cons_snoc
      strip_trailing_snoc [of "[x]" for x, simplified])


section \<open>The pattern matcher\<close>

text \<open>
  \<^verbatim>\<open>std::regex_replace(s, std::regex("\\c"), r)\<close> for an escaped single character
  \<open>c\<close> and a replacement without \<^verbatim>\<open>$\<close>: every occurrence of \<open>c\<close> becomes \<open>r\<close>, everything
  else is copied.
\<close>

definition replace_char :: "char \<Rightarrow> string \<Rightarrow> string \<Rightarrow> string" where
  "replace_char c r s = concat (map (\<lambda>x. if x = c then r else [x]) s)"

definition backslash :: char where
  "backslash = CHR 0x5C"

text \<open>The three rewriting steps of \<^verbatim>\<open>matchesPattern\<close>, in the order of the source.\<close>

definition regexPattern :: "string \<Rightarrow> string" where
  "regexPattern pattern =
     replace_char (CHR ''*'') ''.*''
       (replace_char (CHR ''?'') ''.''
         (replace_char (CHR ''.'') [backslash, CHR ''.''] pattern))"

text \<open>
  \<^verbatim>\<open>std::regex\<close> belongs to the C++ standard library, not to the repository: constructing
  a regex from a source string either throws \<^verbatim>\<open>std::regex_error\<close> or gives an automaton
  that \<^verbatim>\<open>std::regex_match\<close> runs on the whole subject.  The engine is a parameter of the
  model: a function from the regex source and the subject to one of the two outcomes.
\<close>

datatype rx_result = Match bool | RegexError string

type_synonym regex_engine = "string \<Rightarrow> string \<Rightarrow> rx_result"

definition matchesPattern :: "regex_engine \<Rightarrow> string \<Rightarrow> string \<Rightarrow> rx_result" where
  "matchesPattern engine name pattern =
     (if pattern = [] then Match False
      else engine (''^'' @ regexPattern pattern @ ''$'') name)"

subsection \<open>A fragment of the ECMAScript grammar, case-insensitive\<close>

text \<open>
  The fragment covers what the rewriting produces from patterns made of ordinary
  characters, \<^verbatim>\<open>.\<close>, \<^verbatim>\<open>?\<close>, \<^verbatim>\<open>*\<close> and \<^verbatim>\<open>+\<close>: the assertions \<^verbatim>\<open>^\<close> and \<^verbatim>\<open>$\<close>, literal
  characters, identity escapes of syntax characters, the wildcard \<^verbatim>\<open>.\<close>, and the
  quantifiers \<^verbatim>\<open>*\<close> and \<^verbatim>\<open>+\<close> on a single atom.  Groups, classes, braces, alternation,
  stacked quantifiers and the other escapes are outside the fragment: there the parser
  answers \<open>None\<close>.
\<close>

datatype rx_atom = RxChar char | RxAny

datatype rx_item = Bol | Eol | Once rx_atom | Star rx_atom | Plus rx_atom

definition rx_syntax_char :: "char \<Rightarrow> bool" where
  "rx_syntax_char c = (c \<in> set ''^$.*+?()[]{}|'' \<or> c = backslash)"

definition rx_is_quantifier :: "string \<Rightarrow> bool" where
  "rx_is_quantifier s = (case s of [] \<Rightarrow> False | q # _ \<Rightarrow> q \<in> set ''*+?{'')"

function rx_parse :: "string \<Rightarrow> rx_item list option"
  and rx_quant :: "rx_atom \<Rightarrow> string \<Rightarrow> rx_item list option" where
  "rx_parse [] = Some []"
| "rx_parse (c # s) =
     (if c = CHR ''^'' then map_option ((#) Bol) (rx_parse s)
      else if c = CHR ''$'' then map_option ((#) Eol) (rx_parse s)
      else if c = backslash then
        (case s of
           [] \<Rightarrow> None
         | d # s' \<Rightarrow> if rx_syntax_char d then rx_quant (RxChar d) s' else None)
      else if c = CHR ''.'' then rx_quant RxAny s
      else if rx_syntax_char c then None
      else rx_quant (RxChar c) s)"
| "rx_quant a [] = Some [Once a]"
| "rx_quant a (q # s) =
     (if q = CHR ''*'' then
        (if rx_is_quantifier s then None else map_option ((#) (Star a)) (rx_parse s))
      else if q = CHR ''+'' then
        (if rx_is_quantifier s then None else map_option ((#) (Plus a)) (rx_parse s))
      else if q = CHR ''?'' \<or> q = CHR ''{'' then None
      else map_option ((#) (Once a)) (rx_parse (q # s)))"
  by pat_completeness auto
termination
  by (relation "measure (\<lambda>x. case x of Inl s \<Rightarrow> 2 * length s | Inr (a, s) \<Rightarrow> 2 * length s + 1)")
    auto

text \<open>
  Case-insensitive comparison folds both characters with \<^verbatim>\<open>tolower\<close> of the classic
  locale; the wildcard matches every character but the line terminators.
\<close>

definition tolower :: "char \<Rightarrow> char" where
  "tolower c =
     (case map_of (zip ''ABCDEFGHIJKLMNOPQRSTUVWXYZ'' ''abcdefghijklmnopqrstuvwxyz'') c of
        Some l \<Rightarrow> l
      | None \<Rightarrow> c)"

fun rx_atom_ok :: "rx_atom \<Rightarrow> char \<Rightarrow> bool" where
  "rx_atom_ok (RxChar p) c = (tolower p = tolower c)"
| "rx_atom_ok RxAny c = (c \<noteq> CHR 0x0A \<and> c \<noteq> CHR 0x0D)"

text \<open>
  Matching the whole subject with backtracking; the flag says whether the position is the
  start of the subject.
\<close>

function rx_run :: "rx_item list \<Rightarrow> bool \<Rightarrow> string \<Rightarrow> bool" where
  "rx_run [] at_start s = (s = [])"
| "rx_run (Bol # r) at_start s = (at_start \<and> rx_run r at_start s)"
| "rx_run (Eol # r) at_start s = (s = [] \<and> rx_run r at_start s)"
| "rx_run (Once a # r) at_start [] = False"
| "rx_run (Once a # r) at_start (c # s) = (rx_atom_ok a c \<and> rx_run r False s)"
| "rx_run (Star a # r) at_start [] = rx_run r at_start []"
| "rx_run (Star a # r) at_start (c # s) =
     (rx_run r at_start (c # s) \<or> (rx_atom_ok a c \<and> rx_run (Star a # r) False s))"
| "rx_run (Plus a # r) at_start [] = False"
| "rx_run (Plus a # r) at_start (c # s) = (rx_atom_ok a c \<and> rx_run (Star a # r) False s)"
  by pat_completeness auto
termination
  by (relation "(\<lambda>(r, b, s). length s) <*mlex*> measure (\<lambda>(r, b, s). length r)")
    (auto simp: wf_mlex mlex_less mlex_leq)

definition ecma_fragment :: "string \<Rightarrow> string \<Rightarrow> rx_result option" where
  "ecma_fragment re s = map_option (\<lambda>items. Match (rx_run items True s)) (rx_parse re)"

text \<open>
  The engine built from the fragment.  A source outside the fragment is answered with an
  error; the engine is used below only on sources inside it.
\<close>

definition fragment_engine :: regex_engine where
  "fragment_engine re s =
     (case ecma_fragment re s of
        Some r \<Rightarrow> r
      | None \<Rightarrow> RegexError ''outside the modelled fragment'')"

subsection \<open>The glob semantics of the specification\<close>

text \<open>
  The anchored, case-insensitive glob predicate of section 4.1 of the specification,
  written from its words for comparison with \<open>matchesPattern\<close>.  \<^verbatim>\<open>*\<close> stands for any
  sequence, \<^verbatim>\<open>?\<close> for exactly one character, every other pattern character for itself,
  and the empty pattern matches nothing.
\<close>

fun glob_match :: "string \<Rightarrow> string \<Rightarrow> bool" where
  "glob_match [] n = (n = [])"
| "glob_match (p # ps) [] = (p = CHR ''*'' \<and> glob_match ps [])"
| "glob_match (p # ps) (c # cs) =
     (if p = CHR ''*'' then glob_match ps (c # cs) \<or> glob_match (p # ps) cs
      else (p = CHR ''?'' \<or> tolower p = tolower c) \<and> glob_match ps cs)"

definition spec_matches :: "string \<Rightarrow> string \<Rightarrow> bool" where
  "spec_matches name pattern = (pattern \<noteq> [] \<and> glob_match pattern name)"

subsection \<open>Evaluating the matcher\<close>

lemma matchesPattern_empty: "matchesPattern engine name [] = Match False"
  by (simp add: matchesPattern_def)

lemma regexPattern_star_txt: "regexPattern ''*.txt'' = [CHR ''.'', CHR ''*'', backslash, CHR ''.'', CHR ''t'', CHR ''x'', CHR ''t'']"
  by (simp add: regexPattern_def replace_char_def backslash_def)

lemma matchesPattern_spec_examples:
  "matchesPattern fragment_engine ''FILE.TXT'' ''*.txt'' = Match True \<and>
   matchesPattern fragment_engine ''file.txtx'' ''*.txt'' = Match False"
  by (simp add: matchesPattern_def fragment_engine_def ecma_fragment_def regexPattern_def
      replace_char_def backslash_def rx_syntax_char_def rx_is_quantifier_def tolower_def)

subsection \<open>Where the matcher and the glob semantics agree\<close>

text \<open>
  A pattern is plain when it holds no regex syntax character besides the dot and the two
  wildcards; a name is plain when it holds no line terminator.
\<close>

definition plain_pattern :: "string \<Rightarrow> bool" where
  "plain_pattern p = list_all (\<lambda>c. \<not> rx_syntax_char c \<or> c \<in> set ''.*?'') p"

definition plain_name :: "string \<Rightarrow> bool" where
  "plain_name n = list_all (\<lambda>c. c \<noteq> CHR 0x0A \<and> c \<noteq> CHR 0x0D) n"

text \<open>What the three rewriting steps make of one pattern character, and how it parses.\<close>

definition rewrite_char :: "char \<Rightarrow> string" where
  "rewrite_char c =
     (if c = CHR ''.'' then [backslash, CHR ''.'']
      else if c = CHR ''?'' then ''.''
      else if c = CHR ''*'' then ''.*''
      else [c])"

definition item_of :: "char \<Rightarrow> rx_item" where
  "item_of c =
     (if c = CHR ''*'' then Star RxAny
      else if c = CHR ''?'' then Once RxAny
      else Once (RxChar c))"

lemma replace_char_append:
  "replace_char c r (xs @ ys) = replace_char c r xs @ replace_char c r ys"
  by (simp add: replace_char_def)

lemma regexPattern_Cons: "regexPattern (c # p) = rewrite_char c @ regexPattern p"
proof -
  have 1: "replace_char c r (x # xs) = (if x = c then r else [x]) @ replace_char c r xs"
    for c r x xs
    by (simp add: replace_char_def)
  show ?thesis
    unfolding regexPattern_def 1
    by (simp add: replace_char_append rewrite_char_def backslash_def)
      (simp add: replace_char_def)
qed

lemma regexPattern_Nil: "regexPattern [] = []"
  by (simp add: regexPattern_def replace_char_def)

lemma rx_parse_plain:
  "plain_pattern p \<Longrightarrow>
   rx_parse (regexPattern p @ ''$'') = Some (map item_of p @ [Eol])"
proof (induction p)
  case Nil
  then show ?case by (simp add: regexPattern_Nil)
next
  case (Cons c p)
  then have IH: "rx_parse (regexPattern p @ ''$'') = Some (map item_of p @ [Eol])"
    and c: "\<not> rx_syntax_char c \<or> c \<in> set ''.*?''"
    and p: "plain_pattern p"
    by (simp_all add: plain_pattern_def)
  obtain q s where rest: "regexPattern p @ ''$'' = q # s"
    by (cases "regexPattern p @ ''$''") auto
  have q: "q \<noteq> CHR ''*''" "q \<noteq> CHR ''+''" "q \<noteq> CHR ''?''" "q \<noteq> CHR ''{''"
  proof -
    have "q \<notin> set ''*+?{''"
    proof (cases p)
      case Nil
      with rest show ?thesis by (auto simp: regexPattern_Nil)
    next
      case (Cons d p')
      with p have "\<not> rx_syntax_char d \<or> d \<in> set ''.*?''" by (simp add: plain_pattern_def)
      with rest Cons show ?thesis
        by (auto simp: regexPattern_Cons rewrite_char_def rx_syntax_char_def backslash_def
            split: if_splits)
    qed
    then show "q \<noteq> CHR ''*''" "q \<noteq> CHR ''+''" "q \<noteq> CHR ''?''" "q \<noteq> CHR ''{''"
      by auto
  qed
  have IH': "rx_parse (q # s) = Some (map item_of p @ [Eol])"
    using IH unfolding rest .
  have quant: "rx_quant a (q # s) = Some (Once a # map item_of p @ [Eol])" for a
    using q IH' by (simp del: rx_parse.simps)
  have star: "rx_quant a (CHR ''*'' # q # s) = Some (Star a # map item_of p @ [Eol])" for a
    using q IH' by (simp add: rx_is_quantifier_def del: rx_parse.simps)
  consider (dot) "c = CHR ''.''" | (qm) "c = CHR ''?''" | (st) "c = CHR ''*''"
    | (lit) "\<not> rx_syntax_char c" "c \<noteq> CHR ''.''" "c \<noteq> CHR ''?''" "c \<noteq> CHR ''*''"
    using c by auto
  then have "rx_parse (rewrite_char c @ q # s) = Some (item_of c # map item_of p @ [Eol])"
  proof cases
    case dot
    have "rx_parse (backslash # CHR ''.'' # q # s) = rx_quant (RxChar (CHR ''.'')) (q # s)"
      by (simp add: backslash_def rx_syntax_char_def del: rx_quant.simps)
    with dot show ?thesis
      by (simp only: rewrite_char_def item_of_def quant) simp
  next
    case qm
    have "rx_parse (CHR ''.'' # q # s) = rx_quant RxAny (q # s)"
      by (simp add: backslash_def del: rx_quant.simps)
    with qm show ?thesis
      by (simp only: rewrite_char_def item_of_def quant) simp
  next
    case st
    have "rx_parse (CHR ''.'' # CHR ''*'' # q # s) = rx_quant RxAny (CHR ''*'' # q # s)"
      by (simp add: backslash_def del: rx_quant.simps)
    with st show ?thesis
      by (simp only: rewrite_char_def item_of_def star) simp
  next
    case lit
    then have "c \<noteq> CHR ''^''" "c \<noteq> CHR ''$''" "c \<noteq> backslash"
      by (auto simp: rx_syntax_char_def)
    with lit have "rx_parse (c # q # s) = rx_quant (RxChar c) (q # s)"
      by (simp del: rx_quant.simps)
    with lit show ?thesis
      by (simp only: rewrite_char_def item_of_def quant) simp
  qed
  then show ?case
    unfolding regexPattern_Cons append_assoc rest by simp
qed

lemma rx_run_plain:
  "plain_name n \<Longrightarrow> rx_run (map item_of p @ [Eol]) b n = glob_match p n"
proof (induction p n arbitrary: b rule: glob_match.induct)
  case (1 n)
  then show ?case by simp
next
  case (2 p ps)
  then show ?case by (simp add: item_of_def)
next
  case (3 p ps c cs)
  from "3.prems" have c: "c \<noteq> CHR 0x0A" "c \<noteq> CHR 0x0D" and cs: "plain_name cs"
    by (simp_all add: plain_name_def)
  show ?case
  proof (cases "p = CHR ''*''")
    case True
    from "3.IH"(1) [OF True "3.prems"] "3.IH"(2) [OF True cs] True c
    show ?thesis by (simp add: item_of_def)
  next
    case False
    from "3.IH"(3) [OF False cs] False c
    show ?thesis by (simp add: item_of_def)
  qed
qed

text \<open>
  On plain patterns and plain names the code does what the specification says: the
  divergence of claim C3 comes from the regex syntax characters that are left unescaped,
  and from line terminators in names.
\<close>

lemma matchesPattern_plain:
  assumes "plain_pattern p" and "plain_name n"
  shows "matchesPattern fragment_engine n p = Match (spec_matches n p)"
proof (cases "p = []")
  case True
  then show ?thesis by (simp add: matchesPattern_def spec_matches_def)
next
  case False
  have "rx_parse (''^'' @ regexPattern p @ ''$'') = Some (Bol # map item_of p @ [Eol])"
    using rx_parse_plain [OF assms(1)] by simp
  with False rx_run_plain [OF assms(2), of p True] show ?thesis
    by (simp add: matchesPattern_def fragment_engine_def ecma_fragment_def spec_matches_def)
qed

subsection \<open>Where they differ\<close>

text \<open>
  Claim C3 (every pattern character other than \<^verbatim>\<open>*\<close> and \<^verbatim>\<open>?\<close> is matched literally)
  fails on the code.  Only the dot is escaped before the pattern is handed to the regex
  engine, so \<^verbatim>\<open>+\<close> keeps its regex meaning: the pattern \<^verbatim>\<open>a+b\<close> becomes the regex
  \<^verbatim>\<open>^a+b$\<close>, which does not match the name \<^verbatim>\<open>a+b\<close> and does match the name \<^verbatim>\<open>aab\<close>; the
  glob semantics of the claim says the opposite in both cases.
\<close>

theorem matchesPattern_plus_not_literal:
  "regexPattern ''a+b'' = ''a+b'' \<and>
   matchesPattern fragment_engine ''a+b'' ''a+b'' = Match False \<and>
   spec_matches ''a+b'' ''a+b'' \<and>
   matchesPattern fragment_engine ''aab'' ''a+b'' = Match True \<and>
   \<not> spec_matches ''aab'' ''a+b''"
  by (simp add: matchesPattern_def fragment_engine_def ecma_fragment_def regexPattern_def
      replace_char_def backslash_def rx_syntax_char_def rx_is_quantifier_def tolower_def
      spec_matches_def)

section \<open>The file system, the configuration and the statistics\<close>

text \<open>
  What \<^verbatim>\<open>std::filesystem\<close> shows of a directory tree: a node that is not a directory has a
  name, permission bits and a size query that may throw (\<open>None\<close>); a directory has a name,
  permission bits and the outcome of iterating over it, which is either the exception's
  message or the entries in the order the iterator yields them.  An exception in the
  middle of an iteration discards the entries seen so far, so it is modelled like one at
  the start.  The tree is finite: symbolic links that close a cycle are outside the model.

  In this tree the type and the permission bits of every node can be read, and the
  outcome of an iteration is the one \<^verbatim>\<open>printTree\<close> sees through its iterator, which is built
  with \<^verbatim>\<open>skip_permission_denied\<close>: a directory the process may not open iterates as an
  empty one.  The section on the exceptions of the file system, further down, has the
  entries whose queries throw and the directories that are closed to the process, and
  shows that its walker does on the trees of this section what \<open>printTree\<close> does here.
\<close>

unbundle bit_operations_syntax

datatype fsnode =
    File (fname: string) (fmode: "16 word") (fsize: "64 word option")
  | Dir (fname: string) (fmode: "16 word") (listing: "string + fsnode list")

text \<open>\<^verbatim>\<open>entry.is_directory()\<close> for a node whose type can be read.\<close>

fun is_directory :: "fsnode \<Rightarrow> bool" where
  "is_directory (Dir n m l) = True"
| "is_directory (File n m z) = False"

text \<open>\<^verbatim>\<open>struct Args\<close> of \<^verbatim>\<open>args.h\<close>.\<close>

record Args =
  folder :: string
  excludePattern :: string
  csvOut :: string
  maxLevel :: int
  showHidden :: bool
  showDirsOnly :: bool
  showSize :: bool
  showPerms :: bool
  nocolors :: bool
  showHelp :: bool
  showVersion :: bool

text \<open>\<^verbatim>\<open>struct CsvRow\<close> and \<^verbatim>\<open>struct TreeStats\<close> of \<^verbatim>\<open>etree.h\<close>.\<close>

record CsvRow =
  relpath :: string
  name :: string
  type :: string
  perms :: string
  bytes :: "64 word"
  created :: string
  modified :: string

text \<open>
  The counters are C++ \<^verbatim>\<open>int\<close>s.  Signed overflow is undefined behaviour, so the model
  counts in unbounded integers: it describes the runs whose counters stay in range.
\<close>

record TreeStats =
  maxDepth :: int
  folders :: int
  files :: int
  csvRows :: "CsvRow list"

text \<open>
  The state a call works on: the statistics it gets by reference and the two output
  streams.  A stream is the list of the lines written to it, one element for each
  \<^verbatim>\<open>std::endl\<close>.
\<close>

record Process = TreeStats +
  cout :: "string list"
  cerr :: "string list"

text \<open>
  What the process finds around it: whether standard output is a terminal
  (\<^verbatim>\<open>is_console()\<close>), the regex engine of the standard library, and how the locale named by
  the environment prints an integer (\<^verbatim>\<open>formatIntWithCommas\<close> imbues \<^verbatim>\<open>std::locale("")\<close>).
\<close>

record Env =
  is_console :: bool
  std_regex :: regex_engine
  num_put :: "64 word \<Rightarrow> string"

section \<open>Helpers of \<^verbatim>\<open>etree.cpp\<close> (Unix build)\<close>

definition enable_colors :: "Env \<Rightarrow> bool \<Rightarrow> bool" where
  "enable_colors env nc = (\<not> nc \<and> is_console env)"

definition esc :: char where
  "esc = CHR 0x1B"

definition dircolor :: string where
  "dircolor = esc # ''[1;34m''"

definition filecolor :: string where
  "filecolor = esc # ''[0;32m''"

definition permcolor :: string where
  "permcolor = esc # ''[0;36m''"

definition sizecolor :: string where
  "sizecolor = esc # ''[0;33m''"

definition resetcolor :: string where
  "resetcolor = esc # ''[0m''"

definition formatSizeBytes :: "Env \<Rightarrow> 64 word \<Rightarrow> string" where
  "formatSizeBytes env b = num_put env b @ '' B''"

text \<open>
  \<^verbatim>\<open>getPermissions\<close>: the nine permission bits of \<^verbatim>\<open>std::filesystem::perms\<close>, from
  \<^verbatim>\<open>owner_read\<close> (octal 0400) down to \<^verbatim>\<open>others_exec\<close> (octal 01), for an entry whose
  status can be read (\<open>getPermissions_exn\<close> below is the function with the exception of
  \<^verbatim>\<open>entry.status()\<close>).
\<close>

definition perm_flag :: "16 word \<Rightarrow> 16 word \<Rightarrow> char \<Rightarrow> char" where
  "perm_flag p m c = (if p AND m \<noteq> 0 then c else CHR ''-'')"

definition getPermissions :: "fsnode \<Rightarrow> string" where
  "getPermissions entry =
     (let p = fmode entry;
          perms =
            [perm_flag p 0x100 (CHR ''r''), perm_flag p 0x80 (CHR ''w''),
             perm_flag p 0x40 (CHR ''x''), perm_flag p 0x20 (CHR ''r''),
             perm_flag p 0x10 (CHR ''w''), perm_flag p 0x08 (CHR ''x''),
             perm_flag p 0x04 (CHR ''r''), perm_flag p 0x02 (CHR ''w''),
             perm_flag p 0x01 (CHR ''x'')]
      in if perms = [] then ''-'' else perms)"

definition get_file_times :: "string \<Rightarrow> string \<times> string" where
  "get_file_times path = ('''', '''')"

text \<open>
  \<^verbatim>\<open>operator/\<close> of \<^verbatim>\<open>std::filesystem::path\<close> on POSIX paths, read back with
  \<^verbatim>\<open>string()\<close>: an absolute right operand replaces the left one, and a separator is put
  between the operands unless the left one is empty or ends with one.
\<close>

definition path_append :: "string \<Rightarrow> string \<Rightarrow> string" where
  "path_append p q =
     (if q \<noteq> [] \<and> hd q = CHR ''/'' then q
      else if p = [] then q
      else if last p = CHR ''/'' then p @ q
      else p @ ''/'' @ q)"

section \<open>\<^verbatim>\<open>printTree\<close> (Unix build)\<close>

text \<open>
  The body of the \<^verbatim>\<open>try\<close> block: the loop over the directory iterator with its three
  filters.  \<^verbatim>\<open>matchesPattern\<close> is called inside the block, so a \<^verbatim>\<open>std::regex_error\<close>
  ends up in the same \<^verbatim>\<open>catch\<close> as a failing iterator.
\<close>

fun collectEntries :: "Env \<Rightarrow> Args \<Rightarrow> fsnode list \<Rightarrow> fsnode list \<Rightarrow> string + fsnode list" where
  "collectEntries env args [] entries = Inr entries"
| "collectEntries env args (entry # rest) entries =
     (let name = fname entry in
      if \<not> showHidden args \<and> name \<noteq> [] \<and> hd name = CHR ''.''
      then collectEntries env args rest entries
      else
        (case (if excludePattern args \<noteq> []
               then matchesPattern (std_regex env) name (excludePattern args)
               else Match False) of
           RegexError what \<Rightarrow> Inl what
         | Match True \<Rightarrow> collectEntries env args rest entries
         | Match False \<Rightarrow>
             if showDirsOnly args \<and> \<not> is_directory entry
             then collectEntries env args rest entries
             else collectEntries env args rest (entries @ [entry])))"

definition enumerate_dir :: "Env \<Rightarrow> Args \<Rightarrow> string + fsnode list \<Rightarrow> string + fsnode list" where
  "enumerate_dir env args lst =
     (case lst of Inl what \<Rightarrow> Inl what | Inr raw \<Rightarrow> collectEntries env args raw [])"

text \<open>The \<^verbatim>\<open>catch\<close> block: one line on the error stream.\<close>

definition failure_text :: "string \<Rightarrow> string \<Rightarrow> string" where
  "failure_text dir what =
     ''[etree] Failed to enumerate directory '' @ [CHR 0x27] @ dir @ [CHR 0x27] @ '': '' @ what"

definition report_failure :: "string \<Rightarrow> string \<Rightarrow> Process \<Rightarrow> Process" where
  "report_failure dir what st = st\<lparr>cerr := cerr st @ [failure_text dir what]\<rparr>"

text \<open>\<^verbatim>\<open>isDir ? 0 : entry.file_size()\<close>, with \<open>None\<close> when the size query throws.\<close>

definition entry_size :: "fsnode \<Rightarrow> 64 word option" where
  "entry_size entry = (case entry of Dir n m l \<Rightarrow> Some 0 | File n m z \<Rightarrow> z)"

text \<open>
  The text of one rendered line: the name with its branch, then the size and the
  permissions when asked for.  In the size part the stream insertions left of
  \<^verbatim>\<open>formatSizeBytes(...)\<close> are sequenced before the size query (C++17), so when the query
  throws, the colour and the opening bracket are already written and the handler writes
  its own text after them.
\<close>

definition name_text :: "Env \<Rightarrow> Args \<Rightarrow> string \<Rightarrow> bool \<Rightarrow> fsnode \<Rightarrow> string" where
  "name_text env args prefix entryIsLast entry =
     (let branch = (if entryIsLast then ''`-- '' else ''|-- '');
          color = (if enable_colors env (nocolors args)
                   then (if is_directory entry then dircolor else filecolor) else '''');
          reset = (if enable_colors env (nocolors args) then resetcolor else '''')
      in prefix @ color @ branch @ fname entry @ reset)"

definition size_text :: "Env \<Rightarrow> Args \<Rightarrow> fsnode \<Rightarrow> string" where
  "size_text env args entry =
     (let sc = (if enable_colors env (nocolors args) then sizecolor else '''');
          rc = (if enable_colors env (nocolors args) then resetcolor else '''')
      in case entry_size entry of
           Some b \<Rightarrow> sc @ '' ['' @ formatSizeBytes env b @ '']'' @ rc
         | None \<Rightarrow> sc @ '' ['' @ sc @ '' [0 B]'' @ rc)"

definition perms_text :: "Env \<Rightarrow> Args \<Rightarrow> fsnode \<Rightarrow> string" where
  "perms_text env args entry =
     (if enable_colors env (nocolors args) then permcolor else '''') @ '' ('' @
     getPermissions entry @ '')'' @
     (if enable_colors env (nocolors args) then resetcolor else '''')"

definition entry_line :: "Env \<Rightarrow> Args \<Rightarrow> string \<Rightarrow> bool \<Rightarrow> fsnode \<Rightarrow> string" where
  "entry_line env args prefix entryIsLast entry =
     name_text env args prefix entryIsLast entry @
     (if showSize args then size_text env args entry else '''') @
     (if showPerms args then perms_text env args entry else '''')"

text \<open>The row built for the export.\<close>

definition entry_row :: "string \<Rightarrow> string \<Rightarrow> fsnode \<Rightarrow> CsvRow" where
  "entry_row dir relp entry =
     (let times = get_file_times (path_append dir (fname entry)) in
      \<lparr>relpath = (if relp = [] then fname entry else path_append relp (fname entry)),
       name = fname entry,
       type = (if is_directory entry then ''folder'' else ''file''),
       perms = getPermissions entry,
       bytes = (case entry_size entry of Some b \<Rightarrow> b | None \<Rightarrow> 0),
       created = fst times,
       modified = snd times\<rparr>)"

text \<open>
  Everything the loop body does with an entry before it looks at \<^verbatim>\<open>isDir\<close>: without an
  export file it writes the line, with one it appends the row.
\<close>

definition show_entry :: "Env \<Rightarrow> Args \<Rightarrow> string \<Rightarrow> string \<Rightarrow> string \<Rightarrow> bool \<Rightarrow> fsnode \<Rightarrow> Process \<Rightarrow> Process" where
  "show_entry env args dir prefix relp entryIsLast entry st =
     (if csvOut args = []
      then st\<lparr>cout := cout st @ [entry_line env args prefix entryIsLast entry]\<rparr>
      else st\<lparr>csvRows := csvRows st @ [entry_row dir relp entry]\<rparr>)"

subsection \<open>Termination measure\<close>

lemma size_list_sort_key: "size_list f (sort_key g xs) = size_list f xs"
proof -
  have "sum_list (map f (sort_key g xs)) = sum_mset (image_mset f (mset (sort_key g xs)))"
    by (metis mset_map sum_mset_sum_list)
  also have "\<dots> = sum_list (map f xs)"
    by (metis mset_sort mset_map sum_mset_sum_list)
  finally show ?thesis
    by (simp add: size_list_conv_sum_list)
qed

lemma collectEntries_size:
  "collectEntries env args raw acc = Inr es \<Longrightarrow>
   size_list size es \<le> size_list size acc + size_list size raw"
proof (induction raw arbitrary: acc)
  case Nil
  then show ?case by simp
next
  case (Cons entry rest)
  then show ?case
    by (fastforce simp: Let_def split: if_splits rx_result.splits bool.splits)
qed

lemma enumerate_dir_size:
  "enumerate_dir env args lst = Inr es \<Longrightarrow>
   size_list size es \<le> (case lst of Inl w \<Rightarrow> 0 | Inr raw \<Rightarrow> size_list size raw)"
  using collectEntries_size [of env args _ "[]" es]
  by (auto simp: enumerate_dir_def split: sum.splits)

lemma nth_Dir_size:
  "i < length es \<Longrightarrow> es ! i = Dir n m l \<Longrightarrow>
   (case l of Inl w \<Rightarrow> 0 | Inr raw \<Rightarrow> size_list size raw) + 2 \<le> size_list size es"
proof (induction es arbitrary: i)
  case Nil
  then show ?case by simp
next
  case (Cons e es)
  show ?case
  proof (cases i)
    case 0
    with Cons.prems show ?thesis by (auto split: sum.splits)
  next
    case (Suc j)
    with Cons.prems have "j < length es" and "es ! j = Dir n m l" by simp_all
    from Cons.IH [OF this] show ?thesis by simp
  qed
qed

subsection \<open>The recursive walker\<close>

text \<open>
  \<open>printTree\<close> gets the outcome of iterating over \<open>dir\<close> next to the path; the loop
  \<^verbatim>\<open>for (size_t i = 0; i < entries.size(); ++i)\<close> is \<open>processEntries\<close>.  The comparison
  handed to \<^verbatim>\<open>std::sort\<close> is \<^verbatim>\<open><\<close> on the names as \<^verbatim>\<open>std::string\<close>s, which compares bytes
  as unsigned characters, position by position, a proper prefix being smaller: the order
  of \<open>string\<close> here.  \<^verbatim>\<open>std::sort\<close> leaves the order of entries with equal names open; the
  names in one directory are distinct, and then the sorted sequence is unique
  (\<open>sort_key_unique\<close> below).
\<close>

lemma name_order:
  "(a # xs < b # ys) = (a < b \<or> a = b \<and> xs < ys)"
  "([] < b # ys) = True"
  "(xs < []) = False"
  "(a < b) = (of_char a < (of_char b :: nat))"
  for a b :: char and xs ys :: string
  by (simp_all add: less_char_def)

function printTree :: "Env \<Rightarrow> Args \<Rightarrow> string \<Rightarrow> string + fsnode list \<Rightarrow> int \<Rightarrow> string \<Rightarrow> bool \<Rightarrow> string \<Rightarrow> Process \<Rightarrow> Process"
  and processEntries :: "Env \<Rightarrow> Args \<Rightarrow> string \<Rightarrow> int \<Rightarrow> string \<Rightarrow> string \<Rightarrow> fsnode list \<Rightarrow> nat \<Rightarrow> Process \<Rightarrow> Process" where
  "printTree env args dir lst level prefix isLast relp st =
     (if maxLevel args > 0 \<and> level > maxLevel args then st
      else
        (case enumerate_dir env args lst of
           Inl what \<Rightarrow> report_failure dir what st
         | Inr entries \<Rightarrow>
             (let st' = processEntries env args dir level prefix relp (sort_key fname entries) 0 st
              in st'\<lparr>maxDepth := max (maxDepth st') level\<rparr>)))"
| "processEntries env args dir level prefix relp entries i st =
     (if i < length entries then
        (let entryIsLast = (i + 1 = length entries);
             st1 = show_entry env args dir prefix relp entryIsLast (entries ! i) st;
             st2 = (case entries ! i of
                      Dir n m l \<Rightarrow>
                        printTree env args (path_append dir n) l (level + 1)
                          (prefix @ (if entryIsLast then ''    '' else ''|   '')) entryIsLast
                          (if relp = [] then n else relp @ ''/'' @ n)
                          (st1\<lparr>folders := folders st1 + 1\<rparr>)
                    | File n m z \<Rightarrow> st1\<lparr>files := files st1 + 1\<rparr>)
         in processEntries env args dir level prefix relp entries (i + 1) st2)
      else st)"
  by pat_completeness auto
termination
  apply (relation "inv_image (less_than <*lex*> less_than)
     (\<lambda>x. case x of
        Inl (env, args, dir, lst, level, prefix, isLast, relp, st) \<Rightarrow>
          (2 * (case lst of Inl w \<Rightarrow> 0 | Inr es \<Rightarrow> size_list size es) + 1, 0)
      | Inr (env, args, dir, level, prefix, relp, entries, i, st) \<Rightarrow>
          (2 * size_list size entries, length entries - i))")
     apply (simp add: wf_lex_prod)
    apply (simp add: size_list_sort_key)
    apply (drule enumerate_dir_size)
    apply simp
   apply simp
   apply (drule (1) nth_Dir_size)
   apply simp
  apply simp
  done

declare printTree.simps [simp del] processEntries.simps [simp del]

section \<open>The run of \<^verbatim>\<open>main\<close> after argument parsing (Unix build)\<close>

text \<open>Decimal output of an \<^verbatim>\<open>int\<close> on a stream in the classic locale.\<close>

function show_nat :: "nat \<Rightarrow> string" where
  "show_nat n =
     (if n < 10 then [''0123456789'' ! n]
      else show_nat (n div 10) @ [''0123456789'' ! (n mod 10)])"
  by pat_completeness auto
termination
  by (relation "measure id") auto

declare show_nat.simps [simp del]

definition show_int :: "int \<Rightarrow> string" where
  "show_int i = (if i < 0 then ''-'' @ show_nat (nat (- i)) else show_nat (nat i))"

definition summary_line :: "Process \<Rightarrow> string" where
  "summary_line st =
     [CHR 0x0A] @ ''The tree counts '' @ show_int (maxDepth st) @ '' layers, '' @
     show_int (folders st) @ '' folders, '' @ show_int (files st) @ '' files.''"

definition initial_process :: Process where
  "initial_process =
     \<lparr>maxDepth = 0, folders = 0, files = 0, csvRows = [], cout = [], cerr = []\<rparr>"

text \<open>
  \<open>root\<close> is what iterating over \<^verbatim>\<open>args.folder\<close> gives.  With an export file the rows are
  handed to \<^verbatim>\<open>writeTsv\<close>, which leaves the process state as it is; the file it writes is
  not part of the model.
\<close>

definition run_main :: "Env \<Rightarrow> Args \<Rightarrow> string + fsnode list \<Rightarrow> Process" where
  "run_main env args0 root =
     (let args = (if \<not> is_console env then args0\<lparr>nocolors := True\<rparr> else args0);
          st0 = initial_process;
          st1 = (if csvOut args = []
                 then st0\<lparr>cout := cout st0 @
                        [(if enable_colors env (nocolors args) then dircolor else '''') @
                         folder args @
                         (if enable_colors env (nocolors args) then resetcolor else '''')]\<rparr>
                 else st0);
          st2 = printTree env args (folder args) root 1 '''' True '''' st1
      in if csvOut args \<noteq> [] then st2
         else st2\<lparr>cout := cout st2 @ [summary_line st2]\<rparr>)"

section \<open>The traversal as a list of visits\<close>

text \<open>
  The reference the walker is compared with: the pre-order traversal of the specification
  (sections 4.5 and 5) as one list.  A visit is an entry that survives the filter of a
  directory the traversal enumerates; it is recorded with the directories on the way from
  the root down to it (the name of each and whether that directory was the last among its
  siblings) and with its own position among its siblings.
\<close>

record visit =
  v_ancestors :: "(string \<times> bool) list"
  v_last :: bool
  v_entry :: fsnode

text \<open>
  What the recursion has accumulated when it reaches a visit, as closed forms over the
  ancestors: the indentation, the relative path and the path of the directory.
\<close>

definition indent_of :: "string \<Rightarrow> (string \<times> bool) list \<Rightarrow> string" where
  "indent_of prefix0 anc = prefix0 @ concat (map (\<lambda>(n, l). if l then ''    '' else ''|   '') anc)"

definition relpath_of :: "string \<Rightarrow> (string \<times> bool) list \<Rightarrow> string" where
  "relpath_of relp0 anc = foldl (\<lambda>r (n, l). if r = [] then n else r @ ''/'' @ n) relp0 anc"

definition dir_of :: "string \<Rightarrow> (string \<times> bool) list \<Rightarrow> string" where
  "dir_of dir0 anc = foldl (\<lambda>d (n, l). path_append d n) dir0 anc"

text \<open>
  The children that survive the filter in name order, each followed by the traversal of
  its own directory; nothing below a directory that lies beyond the depth limit or whose
  enumeration fails.  \<open>level0\<close> is the level of the outermost call.
\<close>

lemma child_listing_smaller:
  assumes "enumerate_dir env args lst = Inr es" and "i < length es"
    and "sort_key fname es ! i = Dir n m l"
  shows "(case l of Inl w \<Rightarrow> 0 | Inr raw \<Rightarrow> size_list size raw)
         < (case lst of Inl w \<Rightarrow> 0 | Inr raw \<Rightarrow> size_list size raw)"
proof -
  from assms(2) have "i < length (sort_key fname es)" by simp
  from nth_Dir_size [OF this assms(3)] enumerate_dir_size [OF assms(1)]
  show ?thesis by (simp add: size_list_sort_key)
qed

function walk :: "Env \<Rightarrow> Args \<Rightarrow> int \<Rightarrow> string + fsnode list \<Rightarrow> (string \<times> bool) list \<Rightarrow> visit list" where
  "walk env args level0 lst anc =
     (if maxLevel args > 0 \<and> level0 + int (length anc) > maxLevel args then []
      else
        (case enumerate_dir env args lst of
           Inl what \<Rightarrow> []
         | Inr entries \<Rightarrow>
             concat (map (\<lambda>i.
               \<lparr>v_ancestors = anc, v_last = (i + 1 = length entries),
                v_entry = sort_key fname entries ! i\<rparr> #
               (case sort_key fname entries ! i of
                  Dir n m l \<Rightarrow> walk env args level0 l (anc @ [(n, i + 1 = length entries)])
                | File n m z \<Rightarrow> []))
               [0..<length entries])))"
  by pat_completeness auto
termination
  by (relation "measure (\<lambda>(env, args, level0, lst, anc).
      case lst of Inl w \<Rightarrow> 0 | Inr es \<Rightarrow> size_list size es)")
    (auto intro: child_listing_smaller)

declare walk.simps [simp del]


text \<open>The line and the row of a visit.\<close>

definition visit_line :: "Env \<Rightarrow> Args \<Rightarrow> string \<Rightarrow> visit \<Rightarrow> string" where
  "visit_line env args prefix0 v =
     entry_line env args (indent_of prefix0 (v_ancestors v)) (v_last v) (v_entry v)"

definition visit_row :: "string \<Rightarrow> string \<Rightarrow> visit \<Rightarrow> CsvRow" where
  "visit_row dir0 relp0 v =
     entry_row (dir_of dir0 (v_ancestors v)) (relpath_of relp0 (v_ancestors v)) (v_entry v)"

text \<open>
  \<open>accounts vs st st'\<close>: from \<open>st\<close> to \<open>st'\<close> every visit of \<open>vs\<close> has been counted once, as
  a folder or as a file, and has been written once, in order, as a line (without an export
  file) or as a row (with one).
\<close>

definition accounts :: "Env \<Rightarrow> Args \<Rightarrow> string \<Rightarrow> string \<Rightarrow> string \<Rightarrow> visit list \<Rightarrow> Process \<Rightarrow> Process \<Rightarrow> bool" where
  "accounts env args dir0 prefix0 relp0 vs st st' \<longleftrightarrow>
     folders st' = folders st + int (length (filter (\<lambda>v. is_directory (v_entry v)) vs)) \<and>
     files st' = files st + int (length (filter (\<lambda>v. \<not> is_directory (v_entry v)) vs)) \<and>
     csvRows st' = csvRows st @ (if csvOut args = [] then [] else map (visit_row dir0 relp0) vs) \<and>
     cout st' = cout st @ (if csvOut args = [] then map (visit_line env args prefix0) vs else [])"

lemma accounts_Nil: "accounts env args dir0 prefix0 relp0 [] st st"
  by (simp add: accounts_def)

lemma accounts_append:
  "accounts env args dir0 prefix0 relp0 vs st st' \<Longrightarrow>
   accounts env args dir0 prefix0 relp0 ws st' st'' \<Longrightarrow>
   accounts env args dir0 prefix0 relp0 (vs @ ws) st st''"
  by (simp add: accounts_def)

lemma accounts_frame:
  "accounts env args dir0 prefix0 relp0 vs st st' \<Longrightarrow>
   accounts env args dir0 prefix0 relp0 vs st (st'\<lparr>maxDepth := d\<rparr>)"
  "accounts env args dir0 prefix0 relp0 [] st (report_failure dir what st)"
  by (simp_all add: accounts_def report_failure_def)

lemma indent_of_snoc:
  "indent_of prefix0 (anc @ [(n, l)]) = indent_of prefix0 anc @ (if l then ''    '' else ''|   '')"
  by (simp add: indent_of_def)

lemma relpath_of_snoc:
  "relpath_of relp0 (anc @ [(n, l)]) =
     (if relpath_of relp0 anc = [] then n else relpath_of relp0 anc @ ''/'' @ n)"
  by (simp add: relpath_of_def)

lemma dir_of_snoc: "dir_of dir0 (anc @ [(n, l)]) = path_append (dir_of dir0 anc) n"
  by (simp add: dir_of_def)

lemma accounts_file:
  "e = File n m z \<Longrightarrow>
   accounts env args dir0 prefix0 relp0 [\<lparr>v_ancestors = anc, v_last = l, v_entry = e\<rparr>] st
     ((show_entry env args (dir_of dir0 anc) (indent_of prefix0 anc) (relpath_of relp0 anc) l e st)
        \<lparr>files := files (show_entry env args (dir_of dir0 anc) (indent_of prefix0 anc) (relpath_of relp0 anc) l e st) + 1\<rparr>)"
  by (simp add: accounts_def show_entry_def visit_line_def visit_row_def)

lemma accounts_dir:
  "e = Dir n m z \<Longrightarrow>
   accounts env args dir0 prefix0 relp0 [\<lparr>v_ancestors = anc, v_last = l, v_entry = e\<rparr>] st
     ((show_entry env args (dir_of dir0 anc) (indent_of prefix0 anc) (relpath_of relp0 anc) l e st)
        \<lparr>folders := folders (show_entry env args (dir_of dir0 anc) (indent_of prefix0 anc) (relpath_of relp0 anc) l e st) + 1\<rparr>)"
  by (simp add: accounts_def show_entry_def visit_line_def visit_row_def)

text \<open>The walker accounts for the traversal, whatever the state it starts from.\<close>

lemma printTree_accounts:
  "accounts env args dir0 prefix0 relp0 (walk env args level0 lst anc) st
     (printTree env args (dir_of dir0 anc) lst (level0 + int (length anc))
        (indent_of prefix0 anc) isLast (relpath_of relp0 anc) st)"
proof (induction env args level0 lst anc arbitrary: st isLast rule: walk.induct)
  case (1 env args level0 lst anc)
  let ?level = "level0 + int (length anc)"
  show ?case
  proof (cases "maxLevel args > 0 \<and> ?level > maxLevel args")
    case True
    then show ?thesis
      by (simp add: printTree.simps walk.simps accounts_Nil)
  next
    case live: False
    show ?thesis
    proof (cases "enumerate_dir env args lst")
      case (Inl what)
      with live show ?thesis
        by (simp add: printTree.simps walk.simps accounts_frame accounts_Nil)
    next
      case (Inr entries)
      let ?es = "sort_key fname entries"
      let ?f = "\<lambda>i. \<lparr>v_ancestors = anc, v_last = (i + 1 = length entries), v_entry = ?es ! i\<rparr> #
               (case ?es ! i of
                  Dir n m l \<Rightarrow> walk env args level0 l (anc @ [(n, i + 1 = length entries)])
                | File n m z \<Rightarrow> [])"
      have loop: "accounts env args dir0 prefix0 relp0 (concat (map ?f [i..<length entries])) st
          (processEntries env args (dir_of dir0 anc) ?level (indent_of prefix0 anc)
             (relpath_of relp0 anc) ?es i st)"
        if "i + k = length entries" for i k st
        using that
      proof (induction k arbitrary: i st)
        case 0
        then show ?case
          by (simp add: processEntries.simps accounts_Nil)
      next
        case (Suc k)
        then have i: "i < length entries" by simp
        then have upt: "[i..<length entries] = i # [Suc i..<length entries]"
          by (simp add: upt_conv_Cons)
        let ?last = "i + 1 = length entries"
        let ?st1 = "show_entry env args (dir_of dir0 anc) (indent_of prefix0 anc) (relpath_of relp0 anc) ?last (?es ! i) st"
        have rest: "accounts env args dir0 prefix0 relp0 (concat (map ?f [Suc i..<length entries])) st2
          (processEntries env args (dir_of dir0 anc) ?level (indent_of prefix0 anc)
             (relpath_of relp0 anc) ?es (Suc i) st2)" for st2
          using Suc.IH [of "Suc i" st2] Suc.prems by simp
        show ?case
        proof (cases "?es ! i")
          case (File n m z)
          have "accounts env args dir0 prefix0 relp0 (?f i) st (?st1\<lparr>files := files ?st1 + 1\<rparr>)"
            using accounts_file [OF File, of env args dir0 prefix0 relp0 anc ?last st]
            by (simp add: File)
          from accounts_append [OF this rest]
          show ?thesis
            using i by (subst processEntries.simps) (simp add: upt File Let_def)
        next
          case (Dir n m l)
          have own: "accounts env args dir0 prefix0 relp0
              [\<lparr>v_ancestors = anc, v_last = ?last, v_entry = ?es ! i\<rparr>] st
              (?st1\<lparr>folders := folders ?st1 + 1\<rparr>)"
            using accounts_dir [OF Dir, of env args dir0 prefix0 relp0 anc ?last st] .
          have sub: "accounts env args dir0 prefix0 relp0
              (walk env args level0 l (anc @ [(n, ?last)])) (?st1\<lparr>folders := folders ?st1 + 1\<rparr>)
              (printTree env args (path_append (dir_of dir0 anc) n) l (?level + 1)
                 (indent_of prefix0 anc @ (if ?last then ''    '' else ''|   '')) ?last
                 (if relpath_of relp0 anc = [] then n else relpath_of relp0 anc @ ''/'' @ n)
                 (?st1\<lparr>folders := folders ?st1 + 1\<rparr>))"
          proof -
            have mem: "i \<in> set [0..<length entries]" using i by simp
            have lvl: "level0 + int (length (anc @ [(n, ?last)])) = ?level + 1" by simp
            show ?thesis
              using "1.IH" [OF live Inr mem Dir, of "?st1\<lparr>folders := folders ?st1 + 1\<rparr>" ?last]
              unfolding indent_of_snoc relpath_of_snoc dir_of_snoc lvl .
          qed
          from accounts_append [OF accounts_append [OF own sub] rest]
          show ?thesis
            using i by (subst processEntries.simps) (simp add: upt Dir Let_def)
        qed
      qed
      from loop [of 0 "length entries" st] show ?thesis
        by (subst walk.simps) (simp add: live Inr printTree.simps accounts_frame Let_def)
    qed
  qed
qed

subsection \<open>Unfolding the traversal\<close>

lemma walk_pruned:
  "0 < maxLevel args \<and> maxLevel args < level0 + int (length anc) \<Longrightarrow>
   walk env args level0 lst anc = []"
  by (subst walk.simps) simp

lemma walk_failed:
  "enumerate_dir env args lst = Inl what \<Longrightarrow> walk env args level0 lst anc = []"
  by (subst walk.simps) simp

lemma walk_live:
  assumes "\<not> (0 < maxLevel args \<and> maxLevel args < level0 + int (length anc))"
    and "enumerate_dir env args lst = Inr entries"
  shows "walk env args level0 lst anc =
     concat (map (\<lambda>i.
       \<lparr>v_ancestors = anc, v_last = (i + 1 = length entries),
        v_entry = sort_key fname entries ! i\<rparr> #
       (case sort_key fname entries ! i of
          Dir n m l \<Rightarrow> walk env args level0 l (anc @ [(n, i + 1 = length entries)])
        | File n m z \<Rightarrow> []))
       [0..<length entries])"
  by (subst walk.simps) (simp add: assms)

lemma walk_cases:
  assumes "v \<in> set (walk env args level0 lst anc)"
  obtains entries i where
    "\<not> (0 < maxLevel args \<and> maxLevel args < level0 + int (length anc))"
    "enumerate_dir env args lst = Inr entries" "i < length entries"
    "v = \<lparr>v_ancestors = anc, v_last = (i + 1 = length entries),
          v_entry = sort_key fname entries ! i\<rparr>"
  | entries i n m l where
    "\<not> (0 < maxLevel args \<and> maxLevel args < level0 + int (length anc))"
    "enumerate_dir env args lst = Inr entries" "i < length entries"
    "sort_key fname entries ! i = Dir n m l"
    "v \<in> set (walk env args level0 l (anc @ [(n, i + 1 = length entries)]))"
proof (cases "0 < maxLevel args \<and> maxLevel args < level0 + int (length anc)")
  case True
  with assms show ?thesis by (simp add: walk_pruned)
next
  case live: False
  show ?thesis
  proof (cases "enumerate_dir env args lst")
    case (Inl what)
    with assms show ?thesis by (simp add: walk_failed)
  next
    case (Inr entries)
    let ?f = "\<lambda>i. \<lparr>v_ancestors = anc, v_last = (i + 1 = length entries),
          v_entry = sort_key fname entries ! i\<rparr> #
        (case sort_key fname entries ! i of
          Dir n m l \<Rightarrow> walk env args level0 l (anc @ [(n, i + 1 = length entries)])
        | File n m z \<Rightarrow> [])"
    from assms have "v \<in> set (concat (map ?f [0..<length entries]))"
      unfolding walk_live [OF live Inr] .
    then obtain i where "i \<in> set [0..<length entries]" and v': "v \<in> set (?f i)"
      unfolding set_concat set_map by blast
    then have i: "i < length entries" by simp
    from v'
    have v: "v = \<lparr>v_ancestors = anc, v_last = (i + 1 = length entries),
          v_entry = sort_key fname entries ! i\<rparr> \<or>
        v \<in> set (case sort_key fname entries ! i of
          Dir n m l \<Rightarrow> walk env args level0 l (anc @ [(n, i + 1 = length entries)])
        | File n m z \<Rightarrow> [])"
      by simp
    from v show ?thesis
    proof
      assume "v = \<lparr>v_ancestors = anc, v_last = (i + 1 = length entries),
          v_entry = sort_key fname entries ! i\<rparr>"
      with live Inr i show ?thesis by (rule that(1))
    next
      assume sub: "v \<in> set (case sort_key fname entries ! i of
          Dir n m l \<Rightarrow> walk env args level0 l (anc @ [(n, i + 1 = length entries)])
        | File n m z \<Rightarrow> [])"
      then obtain n m l where d: "sort_key fname entries ! i = Dir n m l"
        by (cases "sort_key fname entries ! i") auto
      with sub have "v \<in> set (walk env args level0 l (anc @ [(n, i + 1 = length entries)]))"
        by simp
      with live Inr i d show ?thesis by (rule that(2))
    qed
  qed
qed

lemma walk_ancestors_length:
  "v \<in> set (walk env args level0 lst anc) \<Longrightarrow> length anc \<le> length (v_ancestors v)"
proof (induction env args level0 lst anc rule: walk.induct)
  case (1 env args level0 lst anc)
  from "1.prems" show ?case
  proof (cases rule: walk_cases)
    case (1 entries i)
    then show ?thesis by simp
  next
    case (2 entries i n m l)
    from "1.IH" [OF 2(1) 2(2) _ 2(4) 2(5)] 2(3) show ?thesis by simp
  qed
qed

lemma visits_cong:
  assumes "\<And>i n m l. i < k \<Longrightarrow> es ! i = Dir n m l \<Longrightarrow> f i n l = g i n l"
  shows "concat (map (\<lambda>i. v i # (case es ! i of Dir n m l \<Rightarrow> f i n l | File n m z \<Rightarrow> [])) [0..<k]) =
         concat (map (\<lambda>i. v i # (case es ! i of Dir n m l \<Rightarrow> g i n l | File n m z \<Rightarrow> [])) [0..<k])"
proof -
  have "(case es ! i of Dir n m l \<Rightarrow> f i n l | File n m z \<Rightarrow> []) =
        (case es ! i of Dir n m l \<Rightarrow> g i n l | File n m z \<Rightarrow> [])" if "i < k" for i
    using assms [OF that] by (cases "es ! i") auto
  then show ?thesis
    by (intro arg_cong [where f = concat] map_cong) auto
qed

lemma walk_own_mem:
  assumes "\<not> (0 < maxLevel args \<and> maxLevel args < level0 + int (length anc))"
    and "enumerate_dir env args lst = Inr entries" and "i < length entries"
  shows "\<lparr>v_ancestors = anc, v_last = (i + 1 = length entries),
          v_entry = sort_key fname entries ! i\<rparr> \<in> set (walk env args level0 lst anc)"
  unfolding walk_live [OF assms(1,2)] set_concat set_map using assms(3) by fastforce

lemma walk_child_mem:
  assumes "\<not> (0 < maxLevel args \<and> maxLevel args < level0 + int (length anc))"
    and "enumerate_dir env args lst = Inr entries" and "i < length entries"
    and "sort_key fname entries ! i = Dir n m l"
    and "v \<in> set (walk env args level0 l (anc @ [(n, i + 1 = length entries)]))"
  shows "v \<in> set (walk env args level0 lst anc)"
proof -
  let ?f = "\<lambda>i. \<lparr>v_ancestors = anc, v_last = (i + 1 = length entries),
          v_entry = sort_key fname entries ! i\<rparr> #
        (case sort_key fname entries ! i of
          Dir n m l \<Rightarrow> walk env args level0 l (anc @ [(n, i + 1 = length entries)])
        | File n m z \<Rightarrow> [])"
  from assms(4,5) have "v \<in> set (?f i)" by simp
  moreover from assms(3) have "i \<in> set [0..<length entries]" by simp
  ultimately have "v \<in> set (concat (map ?f [0..<length entries]))"
    unfolding set_concat set_map by blast
  then show ?thesis
    unfolding walk_live [OF assms(1,2)] .
qed

section \<open>The example of the specification\<close>

text \<open>
  The end-to-end example of the specification (section 8): a root with the folder \<open>a\<close>,
  which holds the file \<open>f.txt\<close> of 10 bytes, and the file \<open>b.tmp\<close>; the iterator yields
  \<open>b.tmp\<close> first.  Output goes to a file, the locale prints plain digits.
\<close>

definition example_env :: Env where
  "example_env =
     \<lparr>is_console = False, std_regex = fragment_engine, num_put = (\<lambda>b. show_nat (unat b))\<rparr>"

definition example_args :: Args where
  "example_args =
     \<lparr>folder = ''/x'', excludePattern = '''', csvOut = '''', maxLevel = 0,
      showHidden = False, showDirsOnly = False, showSize = False, showPerms = False,
      nocolors = False, showHelp = False, showVersion = False\<rparr>"

definition example_root :: "string + fsnode list" where
  "example_root =
     Inr [File ''b.tmp'' 0x1A4 (Some 0),
          Dir ''a'' 0x1ED (Inr [File ''f.txt'' 0x1A4 (Some 10)])]"

section \<open>Counting and emitting\<close>

lemma walk_root_accounts:
  "accounts env args dir prefix relp (walk env args level lst []) st
     (printTree env args dir lst level prefix isLast relp st)"
  using printTree_accounts [of env args dir prefix relp level lst "[]" st isLast]
  by (simp add: dir_of_def indent_of_def relpath_of_def)

lemma run_main_accounts:
  "\<exists>args'. csvOut args' = csvOut args \<and>
     (let st1 = (if csvOut args = []
                 then initial_process\<lparr>cout := [(if enable_colors env (nocolors args') then dircolor else '''') @ folder args @ (if enable_colors env (nocolors args') then resetcolor else '''')]\<rparr>
                 else initial_process);
          st2 = printTree env args' (folder args) root 1 '''' True '''' st1
      in run_main env args root = (if csvOut args \<noteq> [] then st2 else st2\<lparr>cout := cout st2 @ [summary_line st2]\<rparr>))"
  by (rule exI [of _ "if \<not> is_console env then args\<lparr>nocolors := True\<rparr> else args"])
    (simp add: run_main_def Let_def initial_process_def)

text \<open>
  Claim C1.  Whatever the tree, the configuration and the state a call of \<open>printTree\<close>
  starts from, the call counts every visit of the traversal once, as a folder or as a
  file, and emits it once: as a rendered line when no export file is given, as a row
  when one is given, and never as both.  The two counters therefore grow together by the
  number of lines or rows emitted.  For the whole run of \<open>main\<close>, \<open>folders + files\<close> is the
  number of rows in export mode and the number of rendered lines in render mode, where
  the standard output holds two more lines, the root's and the summary.
\<close>

theorem stats_count_emitted:
  "(let st' = printTree env args dir lst level prefix isLast relp st;
        vs = walk env args level lst []
    in folders st' = folders st + int (length (filter (\<lambda>v. is_directory (v_entry v)) vs)) \<and>
       files st' = files st + int (length (filter (\<lambda>v. \<not> is_directory (v_entry v)) vs)) \<and>
       folders st' + files st' = folders st + files st + int (length vs) \<and>
       cout st' = cout st @ (if csvOut args = [] then map (visit_line env args prefix) vs else []) \<and>
       csvRows st' = csvRows st @ (if csvOut args = [] then [] else map (visit_row dir relp) vs)) \<and>
   (let run = run_main env args root
    in folders run + files run =
         (if csvOut args = [] then int (length (cout run)) - 2 else int (length (csvRows run))) \<and>
       (if csvOut args = [] then csvRows run = [] else cout run = []))"
proof -
  have split: "int (length (filter P vs)) + int (length (filter (\<lambda>v. \<not> P v) vs)) = int (length vs)"
    for P and vs :: "visit list"
    using sum_length_filter_compl [of P vs] by linarith
  have call: "folders st' = folders st + int (length (filter (\<lambda>v. is_directory (v_entry v)) vs)) \<and>
       files st' = files st + int (length (filter (\<lambda>v. \<not> is_directory (v_entry v)) vs)) \<and>
       folders st' + files st' = folders st + files st + int (length vs) \<and>
       cout st' = cout st @ (if csvOut args = [] then map (visit_line env args prefix) vs else []) \<and>
       csvRows st' = csvRows st @ (if csvOut args = [] then [] else map (visit_row dir relp) vs)"
    if "accounts env args dir prefix relp vs st st'" for env args dir prefix relp vs st st'
    using that split [of "\<lambda>v. is_directory (v_entry v)" vs] by (simp add: accounts_def)
  obtain args' where a: "csvOut args' = csvOut args"
    and r: "(let st1 = (if csvOut args = []
                 then initial_process\<lparr>cout := [(if enable_colors env (nocolors args') then dircolor else '''') @ folder args @ (if enable_colors env (nocolors args') then resetcolor else '''')]\<rparr>
                 else initial_process);
          st2 = printTree env args' (folder args) root 1 '''' True '''' st1
      in run_main env args root = (if csvOut args \<noteq> [] then st2 else st2\<lparr>cout := cout st2 @ [summary_line st2]\<rparr>))"
    using run_main_accounts [of args env root] by blast
  have run: "folders (run_main env args root) + files (run_main env args root) =
         (if csvOut args = [] then int (length (cout (run_main env args root))) - 2
          else int (length (csvRows (run_main env args root)))) \<and>
       (if csvOut args = [] then csvRows (run_main env args root) = []
        else cout (run_main env args root) = [])"
  proof (cases "csvOut args = []")
    case True
    let ?st1 = "initial_process\<lparr>cout := [(if enable_colors env (nocolors args') then dircolor else '''') @ folder args @ (if enable_colors env (nocolors args') then resetcolor else '''')]\<rparr>"
    from call [OF walk_root_accounts [of env args' "folder args" "''''" "''''" 1 root ?st1 True]] r True a
    show ?thesis
      by (simp add: Let_def initial_process_def)
  next
    case False
    from call [OF walk_root_accounts [of env args' "folder args" "''''" "''''" 1 root initial_process True]] r False a
    show ?thesis
      by (simp add: Let_def initial_process_def)
  qed
  show ?thesis
    unfolding Let_def
    by (rule conjI [OF call [OF walk_root_accounts [of env args dir prefix relp level lst st isLast]] run])
qed


section \<open>The depth limit\<close>

lemma collectEntries_maxLevel:
  "collectEntries env (args\<lparr>maxLevel := k\<rparr>) raw acc = collectEntries env args raw acc"
  by (induction raw arbitrary: acc) (auto simp: Let_def split: rx_result.splits bool.splits)

lemma enumerate_dir_maxLevel:
  "enumerate_dir env (args\<lparr>maxLevel := k\<rparr>) lst = enumerate_dir env args lst"
  by (simp add: enumerate_dir_def collectEntries_maxLevel split: sum.splits)

lemma walk_limit:
  "0 < maxLevel args \<Longrightarrow>
   walk env args level0 lst anc =
     filter (\<lambda>v. level0 + int (length (v_ancestors v)) \<le> maxLevel args)
       (walk env (args\<lparr>maxLevel := 0\<rparr>) level0 lst anc)"
proof (induction env args level0 lst anc rule: walk.induct)
  case (1 env args level0 lst anc)
  let ?k = "maxLevel args"
  let ?keep = "\<lambda>v. level0 + int (length (v_ancestors v)) \<le> ?k"
  let ?args0 = "args\<lparr>maxLevel := 0\<rparr>"
  have live0: "\<not> (0 < maxLevel ?args0 \<and> maxLevel ?args0 < level0 + int (length anc))"
    by simp
  show ?case
  proof (cases "0 < ?k \<and> ?k < level0 + int (length anc)")
    case True
    have "\<not> ?keep v" if "v \<in> set (walk env ?args0 level0 lst anc)" for v
      using walk_ancestors_length [OF that] True by simp
    then have "filter ?keep (walk env ?args0 level0 lst anc) = []"
      by (simp add: filter_empty_conv)
    with True show ?thesis
      by (simp add: walk_pruned)
  next
    case live: False
    with "1.prems" have here: "level0 + int (length anc) \<le> ?k" by simp
    show ?thesis
    proof (cases "enumerate_dir env args lst")
      case (Inl what)
      then show ?thesis
        by (simp add: walk_failed enumerate_dir_maxLevel)
    next
      case (Inr entries)
      then have Inr0: "enumerate_dir env ?args0 lst = Inr entries"
        by (simp add: enumerate_dir_maxLevel)
      have "walk env args level0 lst anc =
          concat (map (\<lambda>i. \<lparr>v_ancestors = anc, v_last = (i + 1 = length entries),
              v_entry = sort_key fname entries ! i\<rparr> #
            (case sort_key fname entries ! i of
               Dir n m l \<Rightarrow> filter ?keep (walk env ?args0 level0 l (anc @ [(n, i + 1 = length entries)]))
             | File n m z \<Rightarrow> [])) [0..<length entries])"
        unfolding walk_live [OF live Inr]
        by (rule visits_cong) (use "1.IH" [OF live Inr _ _ "1.prems"] in simp)
      also have "\<dots> = filter ?keep (walk env ?args0 level0 lst anc)"
        unfolding walk_live [OF live0 Inr0]
        by (simp add: filter_concat comp_def here fsnode.case_distrib [of "filter ?keep"]
            cong: fsnode.case_cong)
      finally show ?thesis .
    qed
  qed
qed

lemma walk_nonpositive:
  "maxLevel args \<le> 0 \<Longrightarrow>
   walk env args level0 lst anc = walk env (args\<lparr>maxLevel := 0\<rparr>) level0 lst anc"
proof (induction env args level0 lst anc rule: walk.induct)
  case (1 env args level0 lst anc)
  let ?args0 = "args\<lparr>maxLevel := 0\<rparr>"
  from "1.prems" have live: "\<not> (0 < maxLevel args \<and> maxLevel args < level0 + int (length anc))"
    by simp
  have live0: "\<not> (0 < maxLevel ?args0 \<and> maxLevel ?args0 < level0 + int (length anc))"
    by simp
  show ?case
  proof (cases "enumerate_dir env args lst")
    case (Inl what)
    then show ?thesis
      by (simp add: walk_failed enumerate_dir_maxLevel)
  next
    case (Inr entries)
    then have Inr0: "enumerate_dir env ?args0 lst = Inr entries"
      by (simp add: enumerate_dir_maxLevel)
    show ?thesis
      unfolding walk_live [OF live Inr] walk_live [OF live0 Inr0]
      by (rule visits_cong) (use "1.IH" [OF live Inr _ _ "1.prems"] in simp)
  qed
qed

lemma walk_unlimited:
  "walk env (args\<lparr>maxLevel := 0\<rparr>) level0 lst anc =
     (case enumerate_dir env args lst of
        Inl what \<Rightarrow> []
      | Inr entries \<Rightarrow>
          concat (map (\<lambda>i.
            \<lparr>v_ancestors = anc, v_last = (i + 1 = length entries),
             v_entry = sort_key fname entries ! i\<rparr> #
            (case sort_key fname entries ! i of
               Dir n m l \<Rightarrow>
                 walk env (args\<lparr>maxLevel := 0\<rparr>) level0 l (anc @ [(n, i + 1 = length entries)])
             | File n m z \<Rightarrow> []))
            [0..<length entries]))"
  by (subst walk.simps) (simp add: enumerate_dir_maxLevel)

lemma maxDepth_show_entry:
  "maxDepth (show_entry env args dir prefix relp l e st) = maxDepth st"
  by (simp add: show_entry_def)

lemma maxDepth_bounded:
  "maxDepth (printTree env args dir lst level prefix isLast relp st) \<le> max (maxDepth st) (maxLevel args) \<or> maxLevel args \<le> 0"
  "maxDepth (processEntries env args dir level prefix relp entries i st) \<le> max (maxDepth st) (maxLevel args) \<or> maxLevel args \<le> 0"
proof (induction env args dir lst level prefix isLast relp st
    and env args dir level prefix relp entries i st rule: printTree_processEntries.induct)
  case (1 env args dir lst level prefix isLast relp st)
  show ?case
  proof (cases "maxLevel args > 0 \<and> level > maxLevel args")
    case True
    then show ?thesis by (simp add: printTree.simps)
  next
    case live: False
    show ?thesis
    proof (cases "enumerate_dir env args lst")
      case (Inl what)
      then show ?thesis by (simp add: printTree.simps live report_failure_def)
    next
      case (Inr entries)
      from "1.IH" [OF live Inr] live show ?thesis
        by (subst printTree.simps) (auto simp: Let_def Inr)
    qed
  qed
next
  case (2 env args dir level prefix relp entries i st)
  show ?case
  proof (cases "i < length entries")
    case False
    then show ?thesis by (simp add: processEntries.simps)
  next
    case True
    let ?last = "i + 1 = length entries"
    let ?st1 = "show_entry env args dir prefix relp ?last (entries ! i) st"
    show ?thesis
    proof (cases "entries ! i")
      case (File n m z)
      from "2.IH"(2) [OF True refl refl refl] True
      show ?thesis
        by (subst processEntries.simps) (simp add: Let_def File maxDepth_show_entry)
    next
      case (Dir n m l)
      let ?st2 = "printTree env args (path_append dir n) l (level + 1)
                          (prefix @ (if ?last then ''    '' else ''|   '')) ?last
                          (if relp = [] then n else relp @ ''/'' @ n)
                          (?st1\<lparr>folders := folders ?st1 + 1\<rparr>)"
      from "2.IH"(1) [OF True refl refl Dir]
      have a: "maxDepth ?st2 \<le> max (maxDepth st) (maxLevel args) \<or> maxLevel args \<le> 0"
        by (simp add: maxDepth_show_entry)
      from "2.IH"(2) [OF True refl refl refl]
      have b: "maxDepth (processEntries env args dir level prefix relp entries (i + 1) ?st2)
          \<le> max (maxDepth ?st2) (maxLevel args) \<or> maxLevel args \<le> 0"
        by (simp add: Dir)
      from a b True show ?thesis
        by (subst processEntries.simps) (auto simp: Let_def Dir)
    qed
  qed
qed


text \<open>
  Claim C2.  With a depth limit \<open>maxLevel = k > 0\<close> the walker accounts for exactly those
  visits of the unlimited traversal whose recursion level is at most \<open>k\<close>: nothing at a
  deeper level is rendered, counted or exported, the visits at the levels up to \<open>k\<close> are
  the same, in the same order, as without a limit, and \<open>maxDepth\<close> does not grow beyond
  \<open>k\<close>.  With \<open>maxLevel = 0\<close> or a negative \<open>maxLevel\<close> the walker accounts for the whole
  unlimited traversal, which by \<open>walk_unlimited\<close> descends into every surviving directory
  that can be enumerated.
\<close>

theorem depth_limit:
  "(0 < maxLevel args \<longrightarrow>
      accounts env args dir prefix relp
        (filter (\<lambda>v. level + int (length (v_ancestors v)) \<le> maxLevel args)
           (walk env (args\<lparr>maxLevel := 0\<rparr>) level lst []))
        st (printTree env args dir lst level prefix isLast relp st) \<and>
      maxDepth (printTree env args dir lst level prefix isLast relp st)
        \<le> max (maxDepth st) (maxLevel args)) \<and>
   (maxLevel args \<le> 0 \<longrightarrow>
      accounts env args dir prefix relp (walk env (args\<lparr>maxLevel := 0\<rparr>) level lst [])
        st (printTree env args dir lst level prefix isLast relp st))"
proof (intro conjI impI)
  assume "0 < maxLevel args"
  from walk_limit [OF this, of env level lst "[]"]
  show "accounts env args dir prefix relp
        (filter (\<lambda>v. level + int (length (v_ancestors v)) \<le> maxLevel args)
           (walk env (args\<lparr>maxLevel := 0\<rparr>) level lst []))
        st (printTree env args dir lst level prefix isLast relp st)"
    using walk_root_accounts [of env args dir prefix relp level lst st isLast] by simp
next
  assume "0 < maxLevel args"
  with maxDepth_bounded(1) [of env args dir lst level prefix isLast relp st]
  show "maxDepth (printTree env args dir lst level prefix isLast relp st)
        \<le> max (maxDepth st) (maxLevel args)"
    by simp
next
  assume "maxLevel args \<le> 0"
  from walk_nonpositive [OF this, of env level lst "[]"]
  show "accounts env args dir prefix relp (walk env (args\<lparr>maxLevel := 0\<rparr>) level lst [])
        st (printTree env args dir lst level prefix isLast relp st)"
    using walk_root_accounts [of env args dir prefix relp level lst st isLast] by simp
qed

theorem depth_limit_witness:
  "0 < maxLevel (example_args\<lparr>maxLevel := 1\<rparr>) \<and>
   accounts example_env (example_args\<lparr>maxLevel := 1\<rparr>) ''/x'' '''' ''''
     (filter (\<lambda>v. 1 + int (length (v_ancestors v)) \<le> 1)
        (walk example_env (example_args\<lparr>maxLevel := 0\<rparr>) 1 example_root []))
     initial_process
     (printTree example_env (example_args\<lparr>maxLevel := 1\<rparr>) ''/x'' example_root 1 '''' True ''''
        initial_process) \<and>
   maxDepth (printTree example_env (example_args\<lparr>maxLevel := 1\<rparr>) ''/x'' example_root 1 '''' True ''''
        initial_process) \<le> 1 \<and>
   map (\<lambda>v. fname (v_entry v)) (walk example_env (example_args\<lparr>maxLevel := 0\<rparr>) 1 example_root [])
     = [''a'', ''f.txt'', ''b.tmp''] \<and>
   cout (printTree example_env (example_args\<lparr>maxLevel := 1\<rparr>) ''/x'' example_root 1 '''' True ''''
        initial_process) = [''|-- a'', ''`-- b.tmp''] \<and>
   maxLevel (example_args\<lparr>maxLevel := - 1\<rparr>) \<le> 0 \<and>
   accounts example_env (example_args\<lparr>maxLevel := - 1\<rparr>) ''/x'' '''' ''''
     (walk example_env (example_args\<lparr>maxLevel := 0\<rparr>) 1 example_root [])
     initial_process
     (printTree example_env (example_args\<lparr>maxLevel := - 1\<rparr>) ''/x'' example_root 1 '''' True ''''
        initial_process) \<and>
   cout (printTree example_env (example_args\<lparr>maxLevel := - 1\<rparr>) ''/x'' example_root 1 '''' True ''''
        initial_process) = [''|-- a'', ''|   `-- f.txt'', ''`-- b.tmp'']"
proof -
  have h1: "0 < maxLevel (example_args\<lparr>maxLevel := 1\<rparr>)"
    and h2: "maxLevel (example_args\<lparr>maxLevel := - 1\<rparr>) \<le> 0"
    by simp_all
  have e1: "map (\<lambda>v. fname (v_entry v)) (walk example_env (example_args\<lparr>maxLevel := 0\<rparr>) 1 example_root [])
     = [''a'', ''f.txt'', ''b.tmp'']"
    by code_simp
  have e2: "cout (printTree example_env (example_args\<lparr>maxLevel := 1\<rparr>) ''/x'' example_root 1 '''' True ''''
        initial_process) = [''|-- a'', ''`-- b.tmp'']"
    by code_simp
  have e3: "cout (printTree example_env (example_args\<lparr>maxLevel := - 1\<rparr>) ''/x'' example_root 1 '''' True ''''
        initial_process) = [''|-- a'', ''|   `-- f.txt'', ''`-- b.tmp'']"
    by code_simp
  have m: "maxDepth initial_process = 0"
    by (simp add: initial_process_def)
  from depth_limit [where args = "example_args\<lparr>maxLevel := 1\<rparr>" and env = example_env
      and dir = "''/x''" and prefix = "''''" and relp = "''''" and level = 1
      and lst = example_root and st = initial_process and isLast = True]
    depth_limit [where args = "example_args\<lparr>maxLevel := - 1\<rparr>" and env = example_env
      and dir = "''/x''" and prefix = "''''" and relp = "''''" and level = 1
      and lst = example_root and st = initial_process and isLast = True]
    h1 h2 e1 e2 e3 m
  show ?thesis
    by simp
qed

section \<open>Branches and indentation\<close>

text \<open>
  The two glyphs as section 4.5 of the specification writes them, in UTF-8: the
  box-drawing characters U+2514 and U+251C, each followed by two U+2500 and a space.
\<close>

definition spec_branch :: "bool \<Rightarrow> string" where
  "spec_branch entryIsLast =
     (if entryIsLast
      then [CHR 0xE2, CHR 0x94, CHR 0x94, CHR 0xE2, CHR 0x94, CHR 0x80,
            CHR 0xE2, CHR 0x94, CHR 0x80, CHR '' '']
      else [CHR 0xE2, CHR 0x94, CHR 0x9C, CHR 0xE2, CHR 0x94, CHR 0x80,
            CHR 0xE2, CHR 0x94, CHR 0x80, CHR '' ''])"

text \<open>
  Claim C4, as stated, fails on the code: the branches are drawn in ASCII, a backquote or
  a bar followed by two hyphens and a space, not with box-drawing characters.  The run
  over the example tree writes three lines, none of which is the line the claim expects.
\<close>

theorem branch_glyph_counterexample:
  "cout (printTree example_env example_args ''/x'' example_root 1 '''' True '''' initial_process)
     = [''|-- a'', ''|   `-- f.txt'', ''`-- b.tmp''] \<and>
   cout (printTree example_env example_args ''/x'' example_root 1 '''' True '''' initial_process)
     \<noteq> [spec_branch False @ ''a'', ''|   '' @ spec_branch True @ ''f.txt'',
         spec_branch True @ ''b.tmp'']"
  by code_simp

text \<open>
  Claim C4, amended.  Every rendered line is the indentation of its visit, the colour
  when colours are on, the branch \<^verbatim>\<open>`-- \<close> when the entry is the last of its siblings and
  \<^verbatim>\<open>|-- \<close> otherwise, the name, and the optional size and permission texts.  The
  indentation is the prefix of the outermost call followed by one segment for each
  directory on the way down: four spaces if that directory was the last of its siblings,
  a bar and three spaces if it was not; so the prefix handed to the recursion into a
  directory is the directory's own prefix extended by its segment.
\<close>

theorem branch_and_indentation:
  "cout (printTree env args dir lst level prefix isLast relp st) =
     cout st @
     (if csvOut args = []
      then map (\<lambda>v.
             indent_of prefix (v_ancestors v) @
             (if enable_colors env (nocolors args)
              then (if is_directory (v_entry v) then dircolor else filecolor) else '''') @
             (if v_last v then ''`-- '' else ''|-- '') @ fname (v_entry v) @
             (if enable_colors env (nocolors args) then resetcolor else '''') @
             (if showSize args then size_text env args (v_entry v) else '''') @
             (if showPerms args then perms_text env args (v_entry v) else ''''))
           (walk env args level lst [])
      else []) \<and>
   indent_of prefix [] = prefix \<and>
   indent_of prefix (anc @ [(n, parentIsLast)]) =
     indent_of prefix anc @ (if parentIsLast then ''    '' else ''|   '')"
proof -
  have "cout (printTree env args dir lst level prefix isLast relp st) =
     cout st @ (if csvOut args = [] then map (visit_line env args prefix) (walk env args level lst []) else [])"
    using walk_root_accounts [of env args dir prefix relp level lst st isLast]
    by (simp add: accounts_def)
  moreover have "visit_line env args prefix = (\<lambda>v.
             indent_of prefix (v_ancestors v) @
             (if enable_colors env (nocolors args)
              then (if is_directory (v_entry v) then dircolor else filecolor) else '''') @
             (if v_last v then ''`-- '' else ''|-- '') @ fname (v_entry v) @
             (if enable_colors env (nocolors args) then resetcolor else '''') @
             (if showSize args then size_text env args (v_entry v) else '''') @
             (if showPerms args then perms_text env args (v_entry v) else ''''))"
    by (rule ext) (simp add: visit_line_def entry_line_def name_text_def Let_def)
  ultimately show ?thesis
    by (simp add: indent_of_snoc indent_of_def)
qed

section \<open>Sizes in the rows\<close>

text \<open>
  On a tree whose status queries succeed, the byte count recorded in the row of a visit
  is 0 for a directory, the file's length for a file whose size query succeeds, and 0 for
  a file whose size query throws; the traversal does not depend on the size query.
\<close>

lemma recorded_size:
  "map bytes (csvRows (printTree env args dir lst level prefix isLast relp st)) =
     map bytes (csvRows st) @
     (if csvOut args = [] then []
      else map (\<lambda>v. case v_entry v of
                       Dir n m l \<Rightarrow> 0
                     | File n m z \<Rightarrow> (case z of Some b \<Rightarrow> b | None \<Rightarrow> 0))
             (walk env args level lst [])) \<and>
   accounts env args dir prefix relp (walk env args level lst []) st
     (printTree env args dir lst level prefix isLast relp st)"
proof -
  have "bytes (visit_row dir relp v) =
      (case v_entry v of
         Dir n m l \<Rightarrow> 0
       | File n m z \<Rightarrow> (case z of Some b \<Rightarrow> b | None \<Rightarrow> 0))" for v
    by (simp add: visit_row_def entry_row_def entry_size_def Let_def split: fsnode.splits)
  then show ?thesis
    using walk_root_accounts [of env args dir prefix relp level lst st isLast]
    by (simp add: accounts_def comp_def)
qed

section \<open>The depth reached\<close>

lemma collectEntries_nocolors:
  "collectEntries env (args\<lparr>nocolors := k\<rparr>) raw acc = collectEntries env args raw acc"
  by (induction raw arbitrary: acc) (auto simp: Let_def split: rx_result.splits bool.splits)

lemma enumerate_dir_nocolors:
  "enumerate_dir env (args\<lparr>nocolors := k\<rparr>) lst = enumerate_dir env args lst"
  by (simp add: enumerate_dir_def collectEntries_nocolors split: sum.splits)

lemma show_int_small: "show_int 0 = ''0''" "show_int 1 = ''1''"
  by (simp_all add: show_int_def show_nat.simps)

text \<open>
  Claim C10.  A call whose directory is within the depth limit and can be enumerated
  leaves \<open>maxDepth\<close> at least at its own level; when no child survives the filter, that
  update is all it does.  A run of \<open>main\<close> without export file over a root with no
  surviving child ends with the summary of 1 layer, 0 folders and 0 files.  A call whose
  directory cannot be enumerated leaves \<open>maxDepth\<close> as it was, so the same run over a root
  that cannot be enumerated reports 0 layers.
\<close>

theorem maxDepth_raised:
  "(\<not> (0 < maxLevel args \<and> maxLevel args < level) \<and> enumerate_dir env args lst = Inr entries \<longrightarrow>
      level \<le> maxDepth (printTree env args dir lst level prefix isLast relp st)) \<and>
   (\<not> (0 < maxLevel args \<and> maxLevel args < level) \<and> enumerate_dir env args lst = Inr [] \<longrightarrow>
      printTree env args dir lst level prefix isLast relp st =
        st\<lparr>maxDepth := max (maxDepth st) level\<rparr>) \<and>
   (csvOut args = [] \<and> enumerate_dir env args root = Inr [] \<longrightarrow>
      maxDepth (run_main env args root) = 1 \<and> folders (run_main env args root) = 0 \<and>
      files (run_main env args root) = 0 \<and>
      last (cout (run_main env args root)) =
        CHR 0x0A # ''The tree counts 1 layers, 0 folders, 0 files.'') \<and>
   (enumerate_dir env args lst = Inl what \<longrightarrow>
      maxDepth (printTree env args dir lst level prefix isLast relp st) = maxDepth st) \<and>
   (csvOut args = [] \<and> enumerate_dir env args root = Inl what \<longrightarrow>
      maxDepth (run_main env args root) = 0 \<and>
      last (cout (run_main env args root)) =
        CHR 0x0A # ''The tree counts 0 layers, 0 folders, 0 files.'')"
proof (intro conjI impI; (elim conjE)?)
  assume live: "\<not> (0 < maxLevel args \<and> maxLevel args < level)"
    and en: "enumerate_dir env args lst = Inr entries"
  show "level \<le> maxDepth (printTree env args dir lst level prefix isLast relp st)"
    by (subst printTree.simps) (simp add: live en Let_def)
next
  assume live: "\<not> (0 < maxLevel args \<and> maxLevel args < level)"
    and en: "enumerate_dir env args lst = Inr []"
  show "printTree env args dir lst level prefix isLast relp st =
        st\<lparr>maxDepth := max (maxDepth st) level\<rparr>"
    by (subst printTree.simps) (simp add: live en Let_def processEntries.simps)
next
  assume csv: "csvOut args = []" and en: "enumerate_dir env args root = Inr []"
  have run: "run_main env args root =
      \<lparr>maxDepth = 1, folders = 0, files = 0, csvRows = [],
       cout = [(if enable_colors env (\<not> is_console env \<or> nocolors args) then dircolor else '''') @
               folder args @
               (if enable_colors env (\<not> is_console env \<or> nocolors args) then resetcolor else ''''),
               CHR 0x0A # ''The tree counts 1 layers, 0 folders, 0 files.''],
       cerr = []\<rparr>"
    by (simp add: run_main_def Let_def csv en enumerate_dir_nocolors printTree.simps
        processEntries.simps initial_process_def summary_line_def show_int_small)
  show "maxDepth (run_main env args root) = 1" "folders (run_main env args root) = 0"
    "files (run_main env args root) = 0"
    "last (cout (run_main env args root)) =
        CHR 0x0A # ''The tree counts 1 layers, 0 folders, 0 files.''"
    by (simp_all add: run)
next
  assume en: "enumerate_dir env args lst = Inl what"
  show "maxDepth (printTree env args dir lst level prefix isLast relp st) = maxDepth st"
    by (subst printTree.simps) (simp add: en report_failure_def)
next
  assume csv: "csvOut args = []" and en: "enumerate_dir env args root = Inl what"
  have run: "run_main env args root =
      \<lparr>maxDepth = 0, folders = 0, files = 0, csvRows = [],
       cout = [(if enable_colors env (\<not> is_console env \<or> nocolors args) then dircolor else '''') @
               folder args @
               (if enable_colors env (\<not> is_console env \<or> nocolors args) then resetcolor else ''''),
               CHR 0x0A # ''The tree counts 0 layers, 0 folders, 0 files.''],
       cerr = [failure_text (folder args) what]\<rparr>"
    by (simp add: run_main_def Let_def csv en enumerate_dir_nocolors printTree.simps
        report_failure_def initial_process_def summary_line_def show_int_small)
  show "maxDepth (run_main env args root) = 0"
    "last (cout (run_main env args root)) =
        CHR 0x0A # ''The tree counts 0 layers, 0 folders, 0 files.''"
    by (simp_all add: run)
qed

theorem maxDepth_raised_witness:
  "\<not> (0 < maxLevel example_args \<and> maxLevel example_args < 1) \<and>
   csvOut example_args = [] \<and>
   enumerate_dir example_env example_args (Inr [File ''.hidden'' 0x1A4 (Some 1)]) = Inr [] \<and>
   1 \<le> maxDepth (printTree example_env example_args ''/x'' (Inr [File ''.hidden'' 0x1A4 (Some 1)])
          1 '''' True '''' initial_process) \<and>
   printTree example_env example_args ''/x'' (Inr [File ''.hidden'' 0x1A4 (Some 1)])
          1 '''' True '''' initial_process = initial_process\<lparr>maxDepth := 1\<rparr> \<and>
   maxDepth (printTree example_env example_args ''/x'' (Inl ''No such file or directory'')
          1 '''' True '''' initial_process) = 0 \<and>
   maxDepth (run_main example_env example_args (Inr [File ''.hidden'' 0x1A4 (Some 1)])) = 1 \<and>
   folders (run_main example_env example_args (Inr [File ''.hidden'' 0x1A4 (Some 1)])) = 0 \<and>
   files (run_main example_env example_args (Inr [File ''.hidden'' 0x1A4 (Some 1)])) = 0 \<and>
   cout (run_main example_env example_args (Inr [File ''.hidden'' 0x1A4 (Some 1)])) =
     [''/x'', CHR 0x0A # ''The tree counts 1 layers, 0 folders, 0 files.''] \<and>
   enumerate_dir example_env example_args (Inl ''No such file or directory'') =
     Inl ''No such file or directory'' \<and>
   maxDepth (run_main example_env example_args (Inl ''No such file or directory'')) = 0 \<and>
   cout (run_main example_env example_args (Inl ''No such file or directory'')) =
     [''/x'', CHR 0x0A # ''The tree counts 0 layers, 0 folders, 0 files.'']"
proof -
  let ?hidden = "Inr [File ''.hidden'' 0x1A4 (Some 1)] :: string + fsnode list"
  let ?gone = "Inl ''No such file or directory'' :: string + fsnode list"
  have h1: "\<not> (0 < maxLevel example_args \<and> maxLevel example_args < 1)"
    and h2: "csvOut example_args = []"
    by (simp_all add: example_args_def)
  have h3: "enumerate_dir example_env example_args ?hidden = Inr []"
    by (simp add: enumerate_dir_def example_args_def)
  have h4: "enumerate_dir example_env example_args ?gone = Inl ''No such file or directory''"
    by (simp add: enumerate_dir_def)
  have c1: "cout (run_main example_env example_args ?hidden) =
     [''/x'', CHR 0x0A # ''The tree counts 1 layers, 0 folders, 0 files.'']"
    by code_simp
  have c2: "cout (run_main example_env example_args ?gone) =
     [''/x'', CHR 0x0A # ''The tree counts 0 layers, 0 folders, 0 files.'']"
    by code_simp
  from maxDepth_raised [where env = example_env and args = example_args and lst = ?hidden
      and root = ?hidden and level = 1 and entries = "[]" and dir = "''/x''"
      and prefix = "''''" and isLast = True and relp = "''''" and st = initial_process]
    maxDepth_raised [where env = example_env and args = example_args and lst = ?gone
      and root = ?gone and what = "''No such file or directory''" and level = 1
      and dir = "''/x''" and prefix = "''''" and isLast = True and relp = "''''"
      and st = initial_process]
    h1 h2 h3 h4 c1 c2
  show ?thesis
    by (simp add: initial_process_def)
qed

section \<open>Order of processing\<close>

text \<open>The filter of one entry, from the words of section 4.3 of the specification.\<close>

definition survives :: "Env \<Rightarrow> Args \<Rightarrow> fsnode \<Rightarrow> bool" where
  "survives env args e =
     (\<not> (\<not> showHidden args \<and> fname e \<noteq> [] \<and> hd (fname e) = CHR ''.'') \<and>
      \<not> (excludePattern args \<noteq> [] \<and>
         matchesPattern (std_regex env) (fname e) (excludePattern args) = Match True) \<and>
      \<not> (showDirsOnly args \<and> \<not> is_directory e))"

text \<open>The entries on which the pattern check throws.\<close>

definition pattern_throws :: "Env \<Rightarrow> Args \<Rightarrow> fsnode \<Rightarrow> bool" where
  "pattern_throws env args e =
     (\<not> (\<not> showHidden args \<and> fname e \<noteq> [] \<and> hd (fname e) = CHR ''.'') \<and>
      excludePattern args \<noteq> [] \<and>
      (case matchesPattern (std_regex env) (fname e) (excludePattern args) of
         RegexError what \<Rightarrow> True
       | Match b \<Rightarrow> False))"

lemma collectEntries_Cons:
  "collectEntries env args (e # raw) acc =
     (if pattern_throws env args e
      then (case matchesPattern (std_regex env) (fname e) (excludePattern args) of
              RegexError what \<Rightarrow> Inl what
            | Match b \<Rightarrow> Inr [])
      else if survives env args e then collectEntries env args raw (acc @ [e])
      else collectEntries env args raw acc)"
  by (auto simp: Let_def survives_def pattern_throws_def split: rx_result.splits bool.splits)

lemma collectEntries_Inr:
  "collectEntries env args raw acc = Inr es \<Longrightarrow>
   es = acc @ filter (survives env args) raw \<and> \<not> list_ex (pattern_throws env args) raw"
proof (induction raw arbitrary: acc)
  case Nil
  then show ?case by simp
next
  case (Cons e raw)
  from Cons.prems have nt: "\<not> pattern_throws env args e"
    by (auto simp: collectEntries_Cons pattern_throws_def split: if_splits rx_result.splits
        simp del: collectEntries.simps)
  show ?case
  proof (cases "survives env args e")
    case True
    with Cons.prems nt have "collectEntries env args raw (acc @ [e]) = Inr es"
      by (simp add: collectEntries_Cons del: collectEntries.simps)
    from Cons.IH [OF this] True nt show ?thesis by simp
  next
    case False
    with Cons.prems nt have "collectEntries env args raw acc = Inr es"
      by (simp add: collectEntries_Cons del: collectEntries.simps)
    from Cons.IH [OF this] False nt show ?thesis by simp
  qed
qed

lemma collectEntries_Inl:
  "collectEntries env args raw acc = Inl what \<Longrightarrow> list_ex (pattern_throws env args) raw"
proof (induction raw arbitrary: acc)
  case Nil
  then show ?case by simp
next
  case (Cons e raw)
  show ?case
  proof (cases "pattern_throws env args e")
    case True
    then show ?thesis by simp
  next
    case False
    with Cons.prems obtain acc' where "collectEntries env args raw acc' = Inl what"
      by (auto simp: collectEntries_Cons simp del: collectEntries.simps split: if_splits)
    from Cons.IH [OF this] show ?thesis by simp
  qed
qed

lemma collectEntries_order:
  assumes "mset raw' = mset raw"
  shows "(case collectEntries env args raw [] of
            Inl what \<Rightarrow> \<exists>what'. collectEntries env args raw' [] = Inl what'
          | Inr es \<Rightarrow> \<exists>es'. collectEntries env args raw' [] = Inr es' \<and> mset es' = mset es)"
proof -
  from assms have set: "set raw' = set raw" by (rule mset_eq_setD)
  show ?thesis
  proof (cases "collectEntries env args raw []")
    case (Inl what)
    from collectEntries_Inl [OF this] set have t: "list_ex (pattern_throws env args) raw'"
      by (simp add: list_ex_iff)
    have "\<exists>what'. collectEntries env args raw' [] = Inl what'"
    proof (cases "collectEntries env args raw' []")
      case (Inr es')
      from collectEntries_Inr [OF this] t show ?thesis by simp
    qed simp
    with Inl show ?thesis by simp
  next
    case (Inr es)
    from collectEntries_Inr [OF this] set
    have es: "es = filter (survives env args) raw"
      and t: "\<not> list_ex (pattern_throws env args) raw'"
      by (simp_all add: list_ex_iff)
    have "\<exists>es'. collectEntries env args raw' [] = Inr es' \<and> mset es' = mset es"
    proof (cases "collectEntries env args raw' []")
      case (Inl what')
      from collectEntries_Inl [OF this] t show ?thesis by simp
    next
      case (Inr es')
      from collectEntries_Inr [OF this] have "es' = filter (survives env args) raw'" by simp
      with es assms Inr show ?thesis by simp
    qed
    with Inr show ?thesis by simp
  qed
qed

lemma filter_same_key:
  "distinct (map f xs) \<Longrightarrow> k \<in> set xs \<Longrightarrow> filter (\<lambda>x. f k = f x) xs = [k]"
proof (induction xs)
  case Nil
  then show ?case by simp
next
  case (Cons x xs)
  then show ?case
    by (auto simp: filter_empty_conv image_iff)
qed

lemma sort_key_unique:
  assumes "mset xs = mset ys" and "distinct (map f xs)"
  shows "sort_key f xs = sort_key f ys"
proof (rule properties_for_sort_key)
  show "mset (sort_key f ys) = mset xs"
    using assms(1) by simp
  have dy: "distinct (map f ys)"
    using assms mset_eq_imp_distinct_iff [of "map f xs" "map f ys"] by simp
  then have ds: "distinct (map f (sort_key f ys))"
    by (simp add: distinct_map)
  show "filter (\<lambda>x. f k = f x) (sort_key f ys) = filter (\<lambda>x. f k = f x) xs"
    if "k \<in> set (sort_key f ys)" for k
  proof -
    from that assms(1) have "k \<in> set xs"
      using mset_eq_setD by fastforce
    with filter_same_key [OF assms(2)] filter_same_key [OF ds that]
    show ?thesis by simp
  qed
  show "sorted (map f (sort_key f ys))"
    by simp
qed

text \<open>
  The recursive descent into the entry at index \<open>i\<close> of \<open>entries\<close>, run on its own from the
  empty state: the call the loop makes for a directory, nothing for a file.
\<close>

definition descend :: "Env \<Rightarrow> Args \<Rightarrow> string \<Rightarrow> int \<Rightarrow> string \<Rightarrow> string \<Rightarrow> fsnode list \<Rightarrow> nat \<Rightarrow> Process" where
  "descend env args dir level prefix relp entries i =
     (case entries ! i of
        Dir n m l \<Rightarrow>
          printTree env args (path_append dir n) l (level + 1)
            (prefix @ (if i + 1 = length entries then ''    '' else ''|   ''))
            (i + 1 = length entries)
            (if relp = [] then n else relp @ ''/'' @ n)
            initial_process
      | File n m z \<Rightarrow> initial_process)"

lemma descend_accounts:
  "accounts env args dir prefix relp
     (case entries ! i of
        Dir n m l \<Rightarrow> walk env args level l [(n, i + 1 = length entries)]
      | File n m z \<Rightarrow> [])
     initial_process (descend env args dir level prefix relp entries i)"
proof (cases "entries ! i")
  case (File n m z)
  then show ?thesis by (simp add: descend_def accounts_Nil)
next
  case (Dir n m l)
  from printTree_accounts [of env args dir prefix relp level l "[(n, i + 1 = length entries)]"
      initial_process "i + 1 = length entries"]
  show ?thesis
    by (simp add: descend_def Dir dir_of_def indent_of_def relpath_of_def)
qed

lemma printTree_by_children:
  assumes live: "\<not> (0 < maxLevel args \<and> maxLevel args < level)"
    and en: "enumerate_dir env args lst = Inr entries"
  shows "cout (printTree env args dir lst level prefix isLast relp st) =
       cout st @
       concat (map (\<lambda>i.
         (if csvOut args = []
          then [entry_line env args prefix (i + 1 = length entries) (sort_key fname entries ! i)]
          else []) @
         cout (descend env args dir level prefix relp (sort_key fname entries) i))
         [0..<length entries])"
    and "csvRows (printTree env args dir lst level prefix isLast relp st) =
       csvRows st @
       concat (map (\<lambda>i.
         (if csvOut args = [] then [] else [entry_row dir relp (sort_key fname entries ! i)]) @
         csvRows (descend env args dir level prefix relp (sort_key fname entries) i))
         [0..<length entries])"
proof -
  let ?es = "sort_key fname entries"
  let ?sub = "\<lambda>i. case ?es ! i of
        Dir n m l \<Rightarrow> walk env args level l [(n, i + 1 = length entries)]
      | File n m z \<Rightarrow> []"
  let ?own = "\<lambda>i. \<lparr>v_ancestors = [], v_last = (i + 1 = length entries), v_entry = ?es ! i\<rparr>"
  from live have live': "\<not> (0 < maxLevel args \<and> maxLevel args < level + int (length ([] :: (string \<times> bool) list)))"
    by simp
  have w: "walk env args level lst [] = concat (map (\<lambda>i. ?own i # ?sub i) [0..<length entries])"
    using walk_live [OF live' en] unfolding append_Nil by simp
  have acc: "accounts env args dir prefix relp (walk env args level lst []) st
      (printTree env args dir lst level prefix isLast relp st)"
    by (rule walk_root_accounts)
  have d: "accounts env args dir prefix relp (?sub i) initial_process
      (descend env args dir level prefix relp ?es i)" for i
    using descend_accounts [where entries = ?es and i = i and level = level]
    unfolding length_sort .
  have own_line: "visit_line env args prefix \<lparr>v_ancestors = [], v_last = b, v_entry = e\<rparr> =
      entry_line env args prefix b e" for b e
    by (simp add: visit_line_def indent_of_def)
  have own_row: "visit_row dir relp \<lparr>v_ancestors = [], v_last = b, v_entry = e\<rparr> =
      entry_row dir relp e" for b e
    by (simp add: visit_row_def dir_of_def relpath_of_def)
  show "cout (printTree env args dir lst level prefix isLast relp st) =
       cout st @
       concat (map (\<lambda>i.
         (if csvOut args = []
          then [entry_line env args prefix (i + 1 = length entries) (?es ! i)]
          else []) @
         cout (descend env args dir level prefix relp ?es i))
         [0..<length entries])"
  proof (cases "csvOut args = []")
    case True
    have "map (visit_line env args prefix) (concat (map (\<lambda>i. ?own i # ?sub i) [0..<length entries])) =
        concat (map (\<lambda>i. [entry_line env args prefix (i + 1 = length entries) (?es ! i)] @
           cout (descend env args dir level prefix relp ?es i)) [0..<length entries])"
      unfolding map_concat map_map
      by (intro arg_cong [where f = concat] map_cong refl)
        (use d True in \<open>simp add: accounts_def initial_process_def own_line\<close>)
    with acc True w show ?thesis by (simp add: accounts_def)
  next
    case False
    have "concat (map (\<lambda>i. cout (descend env args dir level prefix relp ?es i)) [0..<length entries]) = []"
      using d False by (simp add: accounts_def initial_process_def)
    with acc False show ?thesis by (simp add: accounts_def)
  qed
  show "csvRows (printTree env args dir lst level prefix isLast relp st) =
       csvRows st @
       concat (map (\<lambda>i.
         (if csvOut args = [] then [] else [entry_row dir relp (?es ! i)]) @
         csvRows (descend env args dir level prefix relp ?es i))
         [0..<length entries])"
  proof (cases "csvOut args = []")
    case False
    have "map (visit_row dir relp) (concat (map (\<lambda>i. ?own i # ?sub i) [0..<length entries])) =
        concat (map (\<lambda>i. [entry_row dir relp (?es ! i)] @
           csvRows (descend env args dir level prefix relp ?es i)) [0..<length entries])"
      unfolding map_concat map_map
      by (intro arg_cong [where f = concat] map_cong refl)
        (use d False in \<open>simp add: accounts_def initial_process_def own_row\<close>)
    with acc False w show ?thesis by (simp add: accounts_def)
  next
    case True
    have "concat (map (\<lambda>i. csvRows (descend env args dir level prefix relp ?es i)) [0..<length entries]) = []"
      using d True by (simp add: accounts_def initial_process_def)
    with acc True show ?thesis by (simp add: accounts_def)
  qed
qed

lemma printTree_order_independent:
  assumes "mset raw' = mset raw" and "distinct (map fname raw)"
  shows "cout (printTree env args dir (Inr raw') level prefix isLast relp st) =
           cout (printTree env args dir (Inr raw) level prefix isLast relp st) \<and>
         csvRows (printTree env args dir (Inr raw') level prefix isLast relp st) =
           csvRows (printTree env args dir (Inr raw) level prefix isLast relp st) \<and>
         folders (printTree env args dir (Inr raw') level prefix isLast relp st) =
           folders (printTree env args dir (Inr raw) level prefix isLast relp st) \<and>
         files (printTree env args dir (Inr raw') level prefix isLast relp st) =
           files (printTree env args dir (Inr raw) level prefix isLast relp st) \<and>
         maxDepth (printTree env args dir (Inr raw') level prefix isLast relp st) =
           maxDepth (printTree env args dir (Inr raw) level prefix isLast relp st)"
proof (cases "enumerate_dir env args (Inr raw)")
  case (Inl what)
  with collectEntries_order [OF assms(1), of env args]
  obtain what' where "enumerate_dir env args (Inr raw') = Inl what'"
    by (auto simp: enumerate_dir_def)
  then have a: "printTree env args dir (Inr raw') level prefix isLast relp st =
      (if 0 < maxLevel args \<and> maxLevel args < level then st else report_failure dir what' st)"
    by (subst printTree.simps) simp
  from Inl have b: "printTree env args dir (Inr raw) level prefix isLast relp st =
      (if 0 < maxLevel args \<and> maxLevel args < level then st else report_failure dir what st)"
    by (subst printTree.simps) simp
  show ?thesis
    by (simp add: a b report_failure_def)
next
  case (Inr es)
  with collectEntries_order [OF assms(1), of env args]
  obtain es' where en': "enumerate_dir env args (Inr raw') = Inr es'" and m: "mset es' = mset es"
    by (auto simp: enumerate_dir_def)
  from Inr collectEntries_Inr [of env args raw "[]" es] have "es = filter (survives env args) raw"
    by (simp add: enumerate_dir_def)
  with assms(2) have "distinct (map fname es)"
    by (simp add: distinct_map_filter)
  with m have "distinct (map fname es')"
    using mset_eq_imp_distinct_iff [of "map fname es'" "map fname es"] by simp
  from sort_key_unique [OF m this] have s: "sort_key fname es' = sort_key fname es" .
  have a: "printTree env args dir (Inr raw') level prefix isLast relp st =
      (if 0 < maxLevel args \<and> maxLevel args < level then st
       else let st' = processEntries env args dir level prefix relp (sort_key fname es) 0 st
            in st'\<lparr>maxDepth := max (maxDepth st') level\<rparr>)"
    by (subst printTree.simps) (simp add: en' s)
  have b: "printTree env args dir (Inr raw) level prefix isLast relp st =
      (if 0 < maxLevel args \<and> maxLevel args < level then st
       else let st' = processEntries env args dir level prefix relp (sort_key fname es) 0 st
            in st'\<lparr>maxDepth := max (maxDepth st') level\<rparr>)"
    by (subst printTree.simps) (simp add: Inr)
  show ?thesis
    by (simp only: a b)
qed

text \<open>
  Claim C5.  Take a call of \<open>printTree\<close> within the depth limit whose directory can be
  enumerated, and let \<open>entries\<close> be the children that survive the filter, in the order the
  iterator yields them.  The loop runs over \<open>sort_key fname entries\<close>: the same children,
  sorted by name in the byte-wise lexicographic order of \<open>string\<close>.  What the call appends to
  the standard output, and equally to the rows, is the concatenation over these children
  in that order of the child's own line (or row) followed by everything its recursive
  descent emits; so a child is finished, descent included, before its next sibling
  starts.  The result does not depend on the order in which the iterator yields the
  children, as long as their names are distinct.
\<close>

theorem sorted_preorder:
  assumes "\<not> (0 < maxLevel args \<and> maxLevel args < level)"
    and "enumerate_dir env args lst = Inr entries"
  shows "(lst = Inr raw \<longrightarrow> entries = filter (survives env args) raw) \<and>
     sorted (map fname (sort_key fname entries)) \<and>
     mset (sort_key fname entries) = mset entries \<and>
     cout (printTree env args dir lst level prefix isLast relp st) =
       cout st @
       concat (map (\<lambda>i.
         (if csvOut args = []
          then [entry_line env args prefix (i + 1 = length entries) (sort_key fname entries ! i)]
          else []) @
         cout (descend env args dir level prefix relp (sort_key fname entries) i))
         [0..<length entries]) \<and>
     csvRows (printTree env args dir lst level prefix isLast relp st) =
       csvRows st @
       concat (map (\<lambda>i.
         (if csvOut args = [] then [] else [entry_row dir relp (sort_key fname entries ! i)]) @
         csvRows (descend env args dir level prefix relp (sort_key fname entries) i))
         [0..<length entries]) \<and>
     (lst = Inr raw \<and> mset raw' = mset raw \<and> distinct (map fname raw) \<longrightarrow>
        cout (printTree env args dir (Inr raw') level prefix isLast relp st) =
          cout (printTree env args dir lst level prefix isLast relp st) \<and>
        csvRows (printTree env args dir (Inr raw') level prefix isLast relp st) =
          csvRows (printTree env args dir lst level prefix isLast relp st) \<and>
        folders (printTree env args dir (Inr raw') level prefix isLast relp st) =
          folders (printTree env args dir lst level prefix isLast relp st) \<and>
        files (printTree env args dir (Inr raw') level prefix isLast relp st) =
          files (printTree env args dir lst level prefix isLast relp st) \<and>
        maxDepth (printTree env args dir (Inr raw') level prefix isLast relp st) =
          maxDepth (printTree env args dir lst level prefix isLast relp st))"
proof -
  have filtered: "entries = filter (survives env args) raw" if "lst = Inr raw"
    using collectEntries_Inr [of env args raw "[]" entries] assms(2) that
    by (simp add: enumerate_dir_def)
  have order: "cout (printTree env args dir (Inr raw') level prefix isLast relp st) =
          cout (printTree env args dir lst level prefix isLast relp st) \<and>
        csvRows (printTree env args dir (Inr raw') level prefix isLast relp st) =
          csvRows (printTree env args dir lst level prefix isLast relp st) \<and>
        folders (printTree env args dir (Inr raw') level prefix isLast relp st) =
          folders (printTree env args dir lst level prefix isLast relp st) \<and>
        files (printTree env args dir (Inr raw') level prefix isLast relp st) =
          files (printTree env args dir lst level prefix isLast relp st) \<and>
        maxDepth (printTree env args dir (Inr raw') level prefix isLast relp st) =
          maxDepth (printTree env args dir lst level prefix isLast relp st)"
    if "lst = Inr raw" "mset raw' = mset raw" "distinct (map fname raw)"
    using printTree_order_independent [OF that(2) that(3)] that(1) by simp
  from filtered order printTree_by_children [OF assms]
  show ?thesis
    by (intro conjI impI) simp_all
qed

theorem sorted_preorder_witness:
  "\<not> (0 < maxLevel example_args \<and> maxLevel example_args < 1) \<and>
   enumerate_dir example_env example_args example_root =
     Inr [File ''b.tmp'' 0x1A4 (Some 0), Dir ''a'' 0x1ED (Inr [File ''f.txt'' 0x1A4 (Some 10)])] \<and>
   [File ''b.tmp'' 0x1A4 (Some 0), Dir ''a'' 0x1ED (Inr [File ''f.txt'' 0x1A4 (Some 10)])] =
     filter (survives example_env example_args)
       [File ''b.tmp'' 0x1A4 (Some 0), Dir ''a'' 0x1ED (Inr [File ''f.txt'' 0x1A4 (Some 10)])] \<and>
   sort_key fname [File ''b.tmp'' 0x1A4 (Some 0), Dir ''a'' 0x1ED (Inr [File ''f.txt'' 0x1A4 (Some 10)])] =
     [Dir ''a'' 0x1ED (Inr [File ''f.txt'' 0x1A4 (Some 10)]), File ''b.tmp'' 0x1A4 (Some 0)] \<and>
   cout (printTree example_env example_args ''/x'' example_root 1 '''' True '''' initial_process) =
     [''|-- a'', ''|   `-- f.txt'', ''`-- b.tmp''] \<and>
   cout (printTree example_env example_args ''/x''
          (Inr [Dir ''a'' 0x1ED (Inr [File ''f.txt'' 0x1A4 (Some 10)]), File ''b.tmp'' 0x1A4 (Some 0)])
          1 '''' True '''' initial_process) =
     cout (printTree example_env example_args ''/x'' example_root 1 '''' True '''' initial_process)"
proof -
  let ?a = "Dir ''a'' 0x1ED (Inr [File ''f.txt'' 0x1A4 (Some 10)])"
  let ?b = "File ''b.tmp'' 0x1A4 (Some 0)"
  have h1: "\<not> (0 < maxLevel example_args \<and> maxLevel example_args < 1)"
    by (simp add: example_args_def)
  have h2: "enumerate_dir example_env example_args example_root = Inr [?b, ?a]"
    by (simp add: enumerate_dir_def example_root_def example_args_def)
  have s: "sort_key fname [?b, ?a] = [?a, ?b]"
    by simp
  have r: "example_root = Inr [?b, ?a]"
    by (simp add: example_root_def)
  have m: "mset [?a, ?b] = mset [?b, ?a]" and d: "distinct (map fname [?b, ?a])"
    by simp_all
  have c: "cout (printTree example_env example_args ''/x'' example_root 1 '''' True '''' initial_process) =
     [''|-- a'', ''|   `-- f.txt'', ''`-- b.tmp'']"
    by code_simp
  from sorted_preorder [OF h1 h2, where raw = "[?b, ?a]" and raw' = "[?a, ?b]"
      and dir = "''/x''" and prefix = "''''" and isLast = True and relp = "''''"
      and st = initial_process] r m d
  have "[?b, ?a] = filter (survives example_env example_args) [?b, ?a]"
    and "cout (printTree example_env example_args ''/x'' (Inr [?a, ?b]) 1 '''' True '''' initial_process) =
      cout (printTree example_env example_args ''/x'' example_root 1 '''' True '''' initial_process)"
    by blast+
  with h1 h2 s c show ?thesis
    by blast
qed

section \<open>Relative paths of the rows\<close>

text \<open>A name a file system can hold: not empty and without a separator.\<close>

definition valid_name :: "string \<Rightarrow> bool" where
  "valid_name n = (n \<noteq> [] \<and> \<not> list_ex (\<lambda>c. c = CHR ''/'') n)"

lemma valid_name_ends:
  assumes "valid_name n"
  shows "n \<noteq> []" and "hd n \<noteq> CHR ''/''" and "last n \<noteq> CHR ''/''"
proof -
  from assms have ne: "n \<noteq> []" and ns: "CHR ''/'' \<notin> set n"
    by (simp_all add: valid_name_def list_ex_iff)
  show "n \<noteq> []" by (rule ne)
  from hd_in_set [OF ne] ns show "hd n \<noteq> CHR ''/''" by auto
  from last_in_set [OF ne] ns show "last n \<noteq> CHR ''/''" by auto
qed

text \<open>
  Every visit below the outermost directory has its parent among the visits: the
  directory whose own ancestors, followed by its name and flag, are the ancestors of the
  visit.
\<close>

lemma walk_parent:
  "v \<in> set (walk env args level0 lst anc) \<Longrightarrow>
   v_ancestors v = anc \<or>
   (\<exists>p \<in> set (walk env args level0 lst anc).
      is_directory (v_entry p) \<and>
      v_ancestors v = v_ancestors p @ [(fname (v_entry p), v_last p)])"
proof (induction env args level0 lst anc rule: walk.induct)
  case (1 env args level0 lst anc)
  from "1.prems" show ?case
  proof (cases rule: walk_cases)
    case (1 entries i)
    then show ?thesis by simp
  next
    case (2 entries i n m l)
    let ?own = "\<lparr>v_ancestors = anc, v_last = (i + 1 = length entries),
          v_entry = sort_key fname entries ! i\<rparr>"
    from 2(3) have i: "i \<in> set [0..<length entries]" by simp
    from "1.IH" [OF 2(1) 2(2) i 2(4) 2(5)]
    show ?thesis
    proof
      assume "v_ancestors v = anc @ [(n, i + 1 = length entries)]"
      moreover have "?own \<in> set (walk env args level0 lst anc)"
        by (rule walk_own_mem [OF 2(1) 2(2) 2(3)])
      ultimately show ?thesis
        using 2(4) by (intro disjI2 bexI [of _ ?own]) simp_all
    next
      assume "\<exists>p \<in> set (walk env args level0 l (anc @ [(n, i + 1 = length entries)])).
        is_directory (v_entry p) \<and>
        v_ancestors v = v_ancestors p @ [(fname (v_entry p), v_last p)]"
      then obtain p where p: "p \<in> set (walk env args level0 l (anc @ [(n, i + 1 = length entries)]))"
        and q: "is_directory (v_entry p)"
          "v_ancestors v = v_ancestors p @ [(fname (v_entry p), v_last p)]"
        by blast
      from walk_child_mem [OF 2(1) 2(2) 2(3) 2(4) p] q show ?thesis by blast
    qed
  qed
qed

lemma walk_ancestors_valid:
  assumes "list_all (\<lambda>v. valid_name (fname (v_entry v))) (walk env args level0 lst anc)"
    and "list_all (\<lambda>a. valid_name (fst a)) anc"
    and "v \<in> set (walk env args level0 lst anc)"
  shows "list_all (\<lambda>a. valid_name (fst a)) (v_ancestors v)"
  using assms
proof (induction env args level0 lst anc rule: walk.induct)
  case (1 env args level0 lst anc)
  from "1.prems"(3) show ?case
  proof (cases rule: walk_cases)
    case (1 entries i)
    with "1.prems"(2) show ?thesis by simp
  next
    case (2 entries i n m l)
    from 2(3) have i: "i \<in> set [0..<length entries]" by simp
    have "\<lparr>v_ancestors = anc, v_last = (i + 1 = length entries),
          v_entry = sort_key fname entries ! i\<rparr> \<in> set (walk env args level0 lst anc)"
      by (rule walk_own_mem [OF 2(1) 2(2) 2(3)])
    with "1.prems"(1) 2(4) have n: "valid_name n"
      by (auto simp: list_all_iff)
    have sub: "list_all (\<lambda>v. valid_name (fname (v_entry v)))
        (walk env args level0 l (anc @ [(n, i + 1 = length entries)]))"
      using "1.prems"(1) walk_child_mem [OF 2(1) 2(2) 2(3) 2(4)]
      by (auto simp: list_all_iff)
    from "1.IH" [OF 2(1) 2(2) i 2(4) sub _ 2(5)] "1.prems"(2) n
    show ?thesis by simp
  qed
qed

lemma relpath_of_valid:
  "list_all (\<lambda>a. valid_name (fst a)) anc \<Longrightarrow>
   (relpath_of [] anc = [] \<longleftrightarrow> anc = []) \<and>
   (anc \<noteq> [] \<longrightarrow> last (relpath_of [] anc) \<noteq> CHR ''/'')"
proof (induction anc rule: rev_induct)
  case Nil
  then show ?case by (simp add: relpath_of_def)
next
  case (snoc a anc)
  obtain n l where a: "a = (n, l)" by (cases a)
  from snoc.prems a have n: "n \<noteq> []" "last n \<noteq> CHR ''/''"
    using valid_name_ends [of n] by simp_all
  with snoc a show ?case
    by (auto simp: relpath_of_snoc)
qed

lemma row_relpath_valid:
  assumes "list_all (\<lambda>a. valid_name (fst a)) (v_ancestors v)"
    and "valid_name (fname (v_entry v))"
  shows "relpath (visit_row dir [] v) =
           (if v_ancestors v = [] then fname (v_entry v)
            else relpath_of [] (v_ancestors v) @ ''/'' @ fname (v_entry v))"
    and "relpath (visit_row dir [] v) =
           relpath_of [] (v_ancestors v @ [(fname (v_entry v), v_last v)])"
    and "relpath (visit_row dir [] v) \<noteq> []"
    and "hd (relpath (visit_row dir [] v)) \<noteq> CHR ''/''"
proof -
  from assms(2) have n: "fname (v_entry v) \<noteq> []" "hd (fname (v_entry v)) \<noteq> CHR ''/''"
    using valid_name_ends [of "fname (v_entry v)"] by simp_all
  from relpath_of_valid [OF assms(1)]
  have e: "relpath_of [] (v_ancestors v) = [] \<longleftrightarrow> v_ancestors v = []"
    and l: "v_ancestors v \<noteq> [] \<longrightarrow> last (relpath_of [] (v_ancestors v)) \<noteq> CHR ''/''"
    by simp_all
  show 1: "relpath (visit_row dir [] v) =
           (if v_ancestors v = [] then fname (v_entry v)
            else relpath_of [] (v_ancestors v) @ ''/'' @ fname (v_entry v))"
    using n e l by (simp add: visit_row_def entry_row_def Let_def path_append_def)
  show "relpath (visit_row dir [] v) =
           relpath_of [] (v_ancestors v @ [(fname (v_entry v), v_last v)])"
    using 1 e by (simp add: relpath_of_snoc)
  show "relpath (visit_row dir [] v) \<noteq> []"
    using 1 n by simp
  have "hd (relpath_of [] anc) \<noteq> CHR ''/''"
    if "list_all (\<lambda>a. valid_name (fst a)) anc" "anc \<noteq> []" for anc
    using that
  proof (induction anc rule: rev_induct)
    case Nil
    then show ?case by simp
  next
    case (snoc a anc)
    obtain k b where a: "a = (k, b)" by (cases a)
    from snoc.prems a have k: "k \<noteq> []" "hd k \<noteq> CHR ''/''"
      using valid_name_ends [of k] by simp_all
    from snoc.prems have v: "list_all (\<lambda>a. valid_name (fst a)) anc" by simp
    show ?case
    proof (cases "anc = []")
      case True
      with k a show ?thesis by (simp add: relpath_of_def)
    next
      case False
      with snoc.IH [OF v] relpath_of_valid [OF v] a show ?thesis
        by (simp add: relpath_of_snoc)
    qed
  qed
  from this [OF assms(1)] 1 n e show "hd (relpath (visit_row dir [] v)) \<noteq> CHR ''/''"
    by (cases "v_ancestors v = []") simp_all
qed

text \<open>
  Claim C6.  Let the names of all visited entries be names a file system can hold, and
  let the walker start with the empty relative path, as \<open>main\<close> starts it.  In export mode
  the rows appended are the rows of the visits, one for each and in order, so the root
  directory, which is never a visit, gets no row.  The relative path of a row is never
  empty and never starts with a separator.  For a child of the root it is the bare name.
  For every other visit the parent directory is itself a visit, and the relative path is
  the relative path of the parent's row, a separator, and the entry's own name.
\<close>

theorem row_relpaths:
  assumes "list_all (\<lambda>v. valid_name (fname (v_entry v))) (walk env args level lst [])"
  shows "csvRows (printTree env args dir lst level prefix isLast [] st) =
           csvRows st @
           (if csvOut args = [] then []
            else map (visit_row dir []) (walk env args level lst [])) \<and>
         list_all (\<lambda>v.
             name (visit_row dir [] v) = fname (v_entry v) \<and>
             relpath (visit_row dir [] v) \<noteq> [] \<and>
             hd (relpath (visit_row dir [] v)) \<noteq> CHR ''/'' \<and>
             (if v_ancestors v = [] then relpath (visit_row dir [] v) = fname (v_entry v)
              else list_ex (\<lambda>p.
                     is_directory (v_entry p) \<and>
                     v_ancestors v = v_ancestors p @ [(fname (v_entry p), v_last p)] \<and>
                     relpath (visit_row dir [] v) =
                       relpath (visit_row dir [] p) @ ''/'' @ fname (v_entry v))
                   (walk env args level lst [])))
           (walk env args level lst [])"
proof -
  let ?vs = "walk env args level lst []"
  have rows: "csvRows (printTree env args dir lst level prefix isLast [] st) =
           csvRows st @ (if csvOut args = [] then [] else map (visit_row dir []) ?vs)"
    using walk_root_accounts [of env args dir prefix "[]" level lst st isLast]
    by (simp add: accounts_def)
  have each: "name (visit_row dir [] v) = fname (v_entry v) \<and>
             relpath (visit_row dir [] v) \<noteq> [] \<and>
             hd (relpath (visit_row dir [] v)) \<noteq> CHR ''/'' \<and>
             (if v_ancestors v = [] then relpath (visit_row dir [] v) = fname (v_entry v)
              else list_ex (\<lambda>p.
                     is_directory (v_entry p) \<and>
                     v_ancestors v = v_ancestors p @ [(fname (v_entry p), v_last p)] \<and>
                     relpath (visit_row dir [] v) =
                       relpath (visit_row dir [] p) @ ''/'' @ fname (v_entry v)) ?vs)"
    if v: "v \<in> set ?vs" for v
  proof -
    have anc: "list_all (\<lambda>a. valid_name (fst a)) (v_ancestors u)" if "u \<in> set ?vs" for u
      using walk_ancestors_valid [OF assms _ that] by simp
    have nm: "valid_name (fname (v_entry u))" if "u \<in> set ?vs" for u
      using assms that by (simp add: list_all_iff)
    note rv = row_relpath_valid [OF anc [OF v] nm [OF v], of dir]
    have parent: "list_ex (\<lambda>p.
                     is_directory (v_entry p) \<and>
                     v_ancestors v = v_ancestors p @ [(fname (v_entry p), v_last p)] \<and>
                     relpath (visit_row dir [] v) =
                       relpath (visit_row dir [] p) @ ''/'' @ fname (v_entry v)) ?vs"
      if ne: "v_ancestors v \<noteq> []"
    proof -
      from walk_parent [OF v] ne obtain p where p: "p \<in> set ?vs"
        and d: "is_directory (v_entry p)"
        and a: "v_ancestors v = v_ancestors p @ [(fname (v_entry p), v_last p)]"
        by auto
      from row_relpath_valid(2) [OF anc [OF p] nm [OF p], of dir] a
      have "relpath (visit_row dir [] p) = relpath_of [] (v_ancestors v)" by simp
      with rv(1) ne have "relpath (visit_row dir [] v) =
          relpath (visit_row dir [] p) @ ''/'' @ fname (v_entry v)" by simp
      with p d a show ?thesis
        unfolding list_ex_iff by blast
    qed
    have "name (visit_row dir [] v) = fname (v_entry v)"
      by (simp add: visit_row_def entry_row_def Let_def)
    with rv parent show ?thesis by simp
  qed
  from rows each show ?thesis
    unfolding list_all_iff by blast
qed

theorem row_relpaths_witness:
  "list_all (\<lambda>v. valid_name (fname (v_entry v)))
     (walk example_env (example_args\<lparr>csvOut := ''out.tsv''\<rparr>) 1 example_root []) \<and>
   csvRows (printTree example_env (example_args\<lparr>csvOut := ''out.tsv''\<rparr>) ''/x'' example_root 1
      '''' True [] initial_process) =
     map (visit_row ''/x'' []) (walk example_env (example_args\<lparr>csvOut := ''out.tsv''\<rparr>) 1 example_root []) \<and>
   map relpath (csvRows (printTree example_env (example_args\<lparr>csvOut := ''out.tsv''\<rparr>) ''/x''
      example_root 1 '''' True [] initial_process)) = [''a'', ''a/f.txt'', ''b.tmp''] \<and>
   map name (csvRows (printTree example_env (example_args\<lparr>csvOut := ''out.tsv''\<rparr>) ''/x''
      example_root 1 '''' True [] initial_process)) = [''a'', ''f.txt'', ''b.tmp'']"
proof -
  let ?args = "example_args\<lparr>csvOut := ''out.tsv''\<rparr>"
  have h: "list_all (\<lambda>v. valid_name (fname (v_entry v))) (walk example_env ?args 1 example_root [])"
    by code_simp
  have e: "csvOut ?args \<noteq> []" "csvRows initial_process = []"
    by (simp_all add: initial_process_def)
  have r: "map relpath (csvRows (printTree example_env ?args ''/x'' example_root 1 '''' True []
      initial_process)) = [''a'', ''a/f.txt'', ''b.tmp'']"
    by code_simp
  have n: "map name (csvRows (printTree example_env ?args ''/x'' example_root 1 '''' True []
      initial_process)) = [''a'', ''f.txt'', ''b.tmp'']"
    by code_simp
  from row_relpaths [OF h, where dir = "''/x''" and prefix = "''''" and isLast = True
      and st = initial_process] e
  have "csvRows (printTree example_env ?args ''/x'' example_root 1 '''' True [] initial_process) =
     map (visit_row ''/x'' []) (walk example_env ?args 1 example_root [])"
    by simp
  with h r n show ?thesis
    by blast
qed

section \<open>The walker with the exceptions of the file system\<close>

text \<open>
  \<open>printTree\<close> above walks a tree in which the type and the permission bits of every
  entry can be read and every directory comes with the outcome of its iteration.  In
  \<^verbatim>\<open>std::filesystem\<close> each of these queries can throw, and \<^verbatim>\<open>printTree\<close> has a handler
  around two places only: the loop that collects the entries and the size query.  This
  section repeats the walker with every query as the program makes it, an exception being
  \<open>Inl\<close> with its message:

    \<^item> \<open>d_name\<close> is \<^verbatim>\<open>entry.path().filename().string()\<close>, which does not throw;
    \<^item> \<open>d_is_directory\<close> is \<^verbatim>\<open>entry.is_directory()\<close>;
    \<^item> \<open>d_status\<close> is the permission bits of \<^verbatim>\<open>entry.status()\<close>;
    \<^item> \<open>d_file_size\<close> is \<^verbatim>\<open>entry.file_size()\<close>;
    \<^item> \<open>d_iterate\<close> is what opening \<^verbatim>\<open>entry.path()\<close> and iterating over it gives: the
      entries, or \<^verbatim>\<open>std::errc::permission_denied\<close>, or any other error with the message
      of the \<^verbatim>\<open>filesystem_error\<close> it is thrown as.
\<close>

datatype iterator_error = permission_denied | filesystem_error string

datatype dirent =
  Entry (d_name: string) (d_is_directory: "string + bool") (d_status: "string + 16 word")
    (d_file_size: "string + 64 word") (d_iterate: "iterator_error + dirent list")

text \<open>
  \<^verbatim>\<open>getPermissions\<close>, Unix branch: \<^verbatim>\<open>entry.status().permissions()\<close> is evaluated first and
  nothing in the function catches what it throws.
\<close>

definition getPermissions_exn :: "dirent \<Rightarrow> string + string" where
  "getPermissions_exn entry =
     (case d_status entry of
        Inl what \<Rightarrow> Inl what
      | Inr p \<Rightarrow>
          (let perms =
                 [perm_flag p 0x100 (CHR ''r''), perm_flag p 0x80 (CHR ''w''),
                  perm_flag p 0x40 (CHR ''x''), perm_flag p 0x20 (CHR ''r''),
                  perm_flag p 0x10 (CHR ''w''), perm_flag p 0x08 (CHR ''x''),
                  perm_flag p 0x04 (CHR ''r''), perm_flag p 0x02 (CHR ''w''),
                  perm_flag p 0x01 (CHR ''x'')]
           in Inr (if perms = [] then ''-'' else perms)))"

text \<open>
  The body of the \<^verbatim>\<open>try\<close> block.  \<^verbatim>\<open>args.showDirsOnly && !entry.is_directory()\<close> asks for
  the type only when \<^verbatim>\<open>showDirsOnly\<close> is set; what the query throws there reaches the
  handler of the block, like a \<^verbatim>\<open>std::regex_error\<close> of \<^verbatim>\<open>matchesPattern\<close>.
\<close>

fun collectEntries_exn :: "Env \<Rightarrow> Args \<Rightarrow> dirent list \<Rightarrow> dirent list \<Rightarrow> string + dirent list" where
  "collectEntries_exn env args [] entries = Inr entries"
| "collectEntries_exn env args (entry # rest) entries =
     (let name = d_name entry in
      if \<not> showHidden args \<and> name \<noteq> [] \<and> hd name = CHR ''.''
      then collectEntries_exn env args rest entries
      else
        (case (if excludePattern args \<noteq> []
               then matchesPattern (std_regex env) name (excludePattern args)
               else Match False) of
           RegexError what \<Rightarrow> Inl what
         | Match True \<Rightarrow> collectEntries_exn env args rest entries
         | Match False \<Rightarrow>
             if showDirsOnly args
             then (case d_is_directory entry of
                     Inl what \<Rightarrow> Inl what
                   | Inr isDir \<Rightarrow>
                       if \<not> isDir then collectEntries_exn env args rest entries
                       else collectEntries_exn env args rest (entries @ [entry]))
             else collectEntries_exn env args rest (entries @ [entry])))"

text \<open>
  \<^verbatim>\<open>fs::directory_iterator(dir, fs::directory_options::skip_permission_denied)\<close>: with this
  option a directory that may not be opened is no error, the iterator is at its end at
  once and the loop body never runs.  Every other error is thrown.
\<close>

definition enumerate_dir_exn :: "Env \<Rightarrow> Args \<Rightarrow> iterator_error + dirent list \<Rightarrow> string + dirent list" where
  "enumerate_dir_exn env args lst =
     (case lst of
        Inl err \<Rightarrow> (case err of permission_denied \<Rightarrow> Inr [] | filesystem_error what \<Rightarrow> Inl what)
      | Inr raw \<Rightarrow> collectEntries_exn env args raw [])"

text \<open>
  \<^verbatim>\<open>isDir ? 0 : entry.file_size()\<close> inside its own \<^verbatim>\<open>try\<close>: \<open>None\<close> when the query throws and
  \<^verbatim>\<open>catch (...)\<close> takes over.
\<close>

definition entry_size_exn :: "bool \<Rightarrow> dirent \<Rightarrow> 64 word option" where
  "entry_size_exn isDir entry =
     (if isDir then Some 0
      else (case d_file_size entry of Inl what \<Rightarrow> None | Inr b \<Rightarrow> Some b))"

definition name_text_exn :: "Env \<Rightarrow> Args \<Rightarrow> string \<Rightarrow> bool \<Rightarrow> bool \<Rightarrow> dirent \<Rightarrow> string" where
  "name_text_exn env args prefix entryIsLast isDir entry =
     (let branch = (if entryIsLast then ''`-- '' else ''|-- '');
          color = (if enable_colors env (nocolors args)
                   then (if isDir then dircolor else filecolor) else '''');
          reset = (if enable_colors env (nocolors args) then resetcolor else '''')
      in prefix @ color @ branch @ d_name entry @ reset)"

definition size_text_exn :: "Env \<Rightarrow> Args \<Rightarrow> bool \<Rightarrow> dirent \<Rightarrow> string" where
  "size_text_exn env args isDir entry =
     (let sc = (if enable_colors env (nocolors args) then sizecolor else '''');
          rc = (if enable_colors env (nocolors args) then resetcolor else '''')
      in case entry_size_exn isDir entry of
           Some b \<Rightarrow> sc @ '' ['' @ formatSizeBytes env b @ '']'' @ rc
         | None \<Rightarrow> sc @ '' ['' @ sc @ '' [0 B]'' @ rc)"

text \<open>
  The rendered line.  The permissions are asked for only with \<^verbatim>\<open>showPerms\<close>, and outside
  any \<^verbatim>\<open>try\<close>: when \<^verbatim>\<open>getPermissions\<close> throws, the line is never finished.
\<close>

definition entry_line_exn :: "Env \<Rightarrow> Args \<Rightarrow> string \<Rightarrow> bool \<Rightarrow> bool \<Rightarrow> dirent \<Rightarrow> string + string" where
  "entry_line_exn env args prefix entryIsLast isDir entry =
     (let shown = name_text_exn env args prefix entryIsLast isDir entry @
                 (if showSize args then size_text_exn env args isDir entry else '''')
      in if showPerms args
         then (case getPermissions_exn entry of
                 Inl what \<Rightarrow> Inl what
               | Inr ps \<Rightarrow>
                   Inr (shown @
                        (if enable_colors env (nocolors args) then permcolor else '''') @
                        '' ('' @ ps @ '')'' @
                        (if enable_colors env (nocolors args) then resetcolor else '''')))
         else Inr shown)"

text \<open>
  The row of the export.  The size query is guarded, \<^verbatim>\<open>row.perms = getPermissions(entry)\<close>
  on the next line is not, and it runs for every entry.
\<close>

definition entry_row_exn :: "string \<Rightarrow> string \<Rightarrow> bool \<Rightarrow> dirent \<Rightarrow> string + CsvRow" where
  "entry_row_exn dir relp isDir entry =
     (let bytes0 = (case entry_size_exn isDir entry of Some b \<Rightarrow> b | None \<Rightarrow> 0) in
      case getPermissions_exn entry of
        Inl what \<Rightarrow> Inl what
      | Inr p \<Rightarrow>
          (let times = get_file_times (path_append dir (d_name entry)) in
           Inr \<lparr>relpath = (if relp = [] then d_name entry else path_append relp (d_name entry)),
                name = d_name entry,
                type = (if isDir then ''folder'' else ''file''),
                perms = p,
                bytes = bytes0,
                created = fst times,
                modified = snd times\<rparr>))"

definition show_entry_exn :: "Env \<Rightarrow> Args \<Rightarrow> string \<Rightarrow> string \<Rightarrow> string \<Rightarrow> bool \<Rightarrow> bool \<Rightarrow> dirent \<Rightarrow> Process \<Rightarrow> string + Process" where
  "show_entry_exn env args dir prefix relp entryIsLast isDir entry st =
     (if csvOut args = []
      then (case entry_line_exn env args prefix entryIsLast isDir entry of
              Inl what \<Rightarrow> Inl what
            | Inr line \<Rightarrow> Inr (st\<lparr>cout := cout st @ [line]\<rparr>))
      else (case entry_row_exn dir relp isDir entry of
              Inl what \<Rightarrow> Inl what
            | Inr row \<Rightarrow> Inr (st\<lparr>csvRows := csvRows st @ [row]\<rparr>)))"

subsection \<open>Termination measure\<close>

lemma collectEntries_exn_size:
  "collectEntries_exn env args raw acc = Inr es \<Longrightarrow>
   size_list size es \<le> size_list size acc + size_list size raw"
proof (induction raw arbitrary: acc)
  case Nil
  then show ?case by simp
next
  case (Cons entry rest)
  then show ?case
    by (fastforce simp: Let_def split: if_splits rx_result.splits bool.splits sum.splits)
qed

lemma enumerate_dir_exn_size:
  "enumerate_dir_exn env args lst = Inr es \<Longrightarrow>
   size_list size es \<le> (case lst of Inl w \<Rightarrow> 0 | Inr raw \<Rightarrow> size_list size raw)"
  using collectEntries_exn_size [of env args _ "[]" es]
  by (auto simp: enumerate_dir_exn_def split: sum.splits iterator_error.splits)

lemma nth_dirent_size:
  "i < length es \<Longrightarrow>
   (case d_iterate (es ! i) of Inl w \<Rightarrow> 0 | Inr raw \<Rightarrow> size_list size raw) + 2 \<le> size_list size es"
proof (induction es arbitrary: i)
  case Nil
  then show ?case by simp
next
  case (Cons e es)
  show ?case
  proof (cases i)
    case 0
    then show ?thesis by (cases e) (auto split: sum.splits)
  next
    case (Suc j)
    with Cons.prems have "j < length es" by simp
    from Cons.IH [OF this] Suc show ?thesis by simp
  qed
qed

subsection \<open>The recursive walker\<close>

text \<open>
  As \<open>printTree\<close> and \<open>processEntries\<close>, with \<open>Inl\<close> for an exception that leaves the call.
  Nothing catches it further up, \<^verbatim>\<open>main\<close> has no handler either, so \<^verbatim>\<open>std::terminate\<close> ends
  the process: the result is the message alone, what the process had counted and
  collected is gone with it.  \<^verbatim>\<open>bool isDir = entry.is_directory()\<close> at the head of the loop
  body is outside the \<^verbatim>\<open>try\<close> block of the enumeration.
\<close>

function printTree_exn :: "Env \<Rightarrow> Args \<Rightarrow> string \<Rightarrow> iterator_error + dirent list \<Rightarrow> int \<Rightarrow> string \<Rightarrow> bool \<Rightarrow> string \<Rightarrow> Process \<Rightarrow> string + Process"
  and processEntries_exn :: "Env \<Rightarrow> Args \<Rightarrow> string \<Rightarrow> int \<Rightarrow> string \<Rightarrow> string \<Rightarrow> dirent list \<Rightarrow> nat \<Rightarrow> Process \<Rightarrow> string + Process" where
  "printTree_exn env args dir lst level prefix isLast relp st =
     (if maxLevel args > 0 \<and> level > maxLevel args then Inr st
      else
        (case enumerate_dir_exn env args lst of
           Inl what \<Rightarrow> Inr (report_failure dir what st)
         | Inr entries \<Rightarrow>
             (case processEntries_exn env args dir level prefix relp (sort_key d_name entries) 0 st of
                Inl what \<Rightarrow> Inl what
              | Inr st' \<Rightarrow> Inr (st'\<lparr>maxDepth := max (maxDepth st') level\<rparr>))))"
| "processEntries_exn env args dir level prefix relp entries i st =
     (if i < length entries then
        (case d_is_directory (entries ! i) of
           Inl what \<Rightarrow> Inl what
         | Inr isDir \<Rightarrow>
             (let entryIsLast = (i + 1 = length entries) in
              case show_entry_exn env args dir prefix relp entryIsLast isDir (entries ! i) st of
                Inl what \<Rightarrow> Inl what
              | Inr st1 \<Rightarrow>
                  (case (if isDir
                         then printTree_exn env args (path_append dir (d_name (entries ! i)))
                                (d_iterate (entries ! i)) (level + 1)
                                (prefix @ (if entryIsLast then ''    '' else ''|   '')) entryIsLast
                                (if relp = [] then d_name (entries ! i)
                                 else relp @ ''/'' @ d_name (entries ! i))
                                (st1\<lparr>folders := folders st1 + 1\<rparr>)
                         else Inr (st1\<lparr>files := files st1 + 1\<rparr>)) of
                     Inl what \<Rightarrow> Inl what
                   | Inr st2 \<Rightarrow> processEntries_exn env args dir level prefix relp entries (i + 1) st2)))
      else Inr st)"
  by pat_completeness auto
termination
  apply (relation "inv_image (less_than <*lex*> less_than)
     (\<lambda>x. case x of
        Inl (env, args, dir, lst, level, prefix, isLast, relp, st) \<Rightarrow>
          (2 * (case lst of Inl w \<Rightarrow> 0 | Inr es \<Rightarrow> size_list size es) + 1, 0)
      | Inr (env, args, dir, level, prefix, relp, entries, i, st) \<Rightarrow>
          (2 * size_list size entries, length entries - i))")
     apply (simp add: wf_lex_prod)
    apply (simp add: size_list_sort_key)
    apply (drule enumerate_dir_exn_size)
    apply simp
   apply simp
   apply (drule nth_dirent_size)
   apply simp
  apply simp
  done

declare printTree_exn.simps [simp del] processEntries_exn.simps [simp del]

text \<open>\<^verbatim>\<open>main\<close> after argument parsing, as \<open>run_main\<close>.\<close>

definition run_main_exn :: "Env \<Rightarrow> Args \<Rightarrow> iterator_error + dirent list \<Rightarrow> string + Process" where
  "run_main_exn env args0 root =
     (let args = (if \<not> is_console env then args0\<lparr>nocolors := True\<rparr> else args0);
          st0 = initial_process;
          st1 = (if csvOut args = []
                 then st0\<lparr>cout := cout st0 @
                        [(if enable_colors env (nocolors args) then dircolor else '''') @
                         folder args @
                         (if enable_colors env (nocolors args) then resetcolor else '''')]\<rparr>
                 else st0)
      in case printTree_exn env args (folder args) root 1 '''' True '''' st1 of
           Inl what \<Rightarrow> Inl what
         | Inr st2 \<Rightarrow>
             Inr (if csvOut args \<noteq> [] then st2
                  else st2\<lparr>cout := cout st2 @ [summary_line st2]\<rparr>))"

subsection \<open>Where nothing throws\<close>

text \<open>
  A tree of \<open>fsnode\<close>s is a tree of entries whose type and permission bits can be read, in
  which a directory that cannot be iterated throws.  On such a tree the walker with
  exceptions returns, and with the state \<open>printTree\<close> computes: everything shown about
  \<open>printTree\<close> holds for the runs in which no status query throws and no directory is
  closed to the process.
\<close>

primrec dirent_of :: "fsnode \<Rightarrow> dirent" where
  "dirent_of (File n m z) =
     Entry n (Inr False) (Inr m)
       (case z of None \<Rightarrow> Inl ''cannot get file size'' | Some b \<Rightarrow> Inr b)
       (Inl (filesystem_error ''Not a directory''))"
| "dirent_of (Dir n m l) =
     Entry n (Inr True) (Inr m) (Inl ''Is a directory'')
       (map_sum filesystem_error (map dirent_of) l)"

lemma dirent_of_queries:
  "d_name (dirent_of e) = fname e"
  "d_is_directory (dirent_of e) = Inr (is_directory e)"
  "d_status (dirent_of e) = Inr (fmode e)"
  "entry_size_exn (is_directory e) (dirent_of e) = entry_size e"
  by (cases e; simp add: entry_size_exn_def entry_size_def split: option.splits)+

lemma collectEntries_exn_of:
  "collectEntries_exn env args (map dirent_of raw) (map dirent_of acc) =
   map_sum id (map dirent_of) (collectEntries env args raw acc)"
proof (induction raw arbitrary: acc)
  case Nil
  show ?case by simp
next
  case (Cons e raw)
  from Cons [of acc] Cons [of "acc @ [e]"] show ?case
    by (auto simp: dirent_of_queries Let_def split: rx_result.splits bool.splits)
qed

lemma enumerate_dir_exn_of:
  "enumerate_dir_exn env args (map_sum filesystem_error (map dirent_of) lst) =
   map_sum id (map dirent_of) (enumerate_dir env args lst)"
  using collectEntries_exn_of [of env args _ "[]"]
  by (cases lst) (simp_all add: enumerate_dir_exn_def enumerate_dir_def)

lemma insort_key_dirent_of:
  "insort_key d_name (dirent_of e) (map dirent_of es) = map dirent_of (insort_key fname e es)"
  by (induction es) (simp_all add: dirent_of_queries)

lemma sort_key_dirent_of:
  "sort_key d_name (map dirent_of es) = map dirent_of (sort_key fname es)"
  by (induction es) (simp_all add: sort_key_def insort_key_dirent_of)

lemma show_entry_exn_of:
  "show_entry_exn env args dir prefix relp entryIsLast (is_directory e) (dirent_of e) st =
   Inr (show_entry env args dir prefix relp entryIsLast e st)"
  by (simp add: show_entry_exn_def show_entry_def entry_line_exn_def entry_line_def
      name_text_exn_def name_text_def size_text_exn_def size_text_def perms_text_def
      entry_row_exn_def entry_row_def getPermissions_exn_def getPermissions_def
      dirent_of_queries Let_def)

lemma printTree_exn_of:
  "printTree_exn env args dir (map_sum filesystem_error (map dirent_of) lst) level prefix isLast relp st =
     Inr (printTree env args dir lst level prefix isLast relp st)"
  "processEntries_exn env args dir level prefix relp (map dirent_of entries) i st =
     Inr (processEntries env args dir level prefix relp entries i st)"
proof (induction env args dir lst level prefix isLast relp st
    and env args dir level prefix relp entries i st rule: printTree_processEntries.induct)
  case (1 env args dir lst level prefix isLast relp st)
  show ?case
  proof (cases "maxLevel args > 0 \<and> level > maxLevel args")
    case True
    then show ?thesis by (simp add: printTree.simps printTree_exn.simps)
  next
    case live: False
    show ?thesis
    proof (cases "enumerate_dir env args lst")
      case (Inl what)
      then show ?thesis
        by (simp add: printTree.simps printTree_exn.simps live enumerate_dir_exn_of)
    next
      case (Inr entries)
      from "1.IH" [OF live Inr] show ?thesis
        by (subst printTree_exn.simps, subst printTree.simps)
          (simp add: live Inr enumerate_dir_exn_of sort_key_dirent_of Let_def)
    qed
  qed
next
  case (2 env args dir level prefix relp entries i st)
  show ?case
  proof (cases "i < length entries")
    case False
    then show ?thesis by (simp add: processEntries.simps processEntries_exn.simps)
  next
    case True
    let ?last = "i + 1 = length entries"
    let ?st1 = "show_entry env args dir prefix relp ?last (entries ! i) st"
    show ?thesis
    proof (cases "entries ! i")
      case (File n m z)
      from "2.IH"(2) [OF True refl refl refl] True
      show ?thesis
        by (subst processEntries_exn.simps, subst processEntries.simps)
          (simp add: Let_def File show_entry_exn_of [of _ _ _ _ _ _ "File n m z", simplified])
    next
      case (Dir n m l)
      let ?st2 = "printTree env args (path_append dir n) l (level + 1)
                    (prefix @ (if ?last then ''    '' else ''|   '')) ?last
                    (if relp = [] then n else relp @ ''/'' @ n)
                    (?st1\<lparr>folders := folders ?st1 + 1\<rparr>)"
      have a: "printTree_exn env args (path_append dir n)
                 (map_sum filesystem_error (map dirent_of) l) (level + 1)
                 (prefix @ (if ?last then ''    '' else ''|   '')) ?last
                 (if relp = [] then n else relp @ ''/'' @ n)
                 (?st1\<lparr>folders := folders ?st1 + 1\<rparr>) = Inr ?st2"
        by (rule "2.IH"(1) [OF True refl refl Dir])
      have b: "processEntries_exn env args dir level prefix relp (map dirent_of entries) (i + 1) ?st2 =
          Inr (processEntries env args dir level prefix relp entries (i + 1) ?st2)"
        using "2.IH"(2) [OF True refl refl refl] by (simp add: Dir split del: if_split cong: if_cong)
      have l: "processEntries_exn env args dir level prefix relp (map dirent_of entries) i st =
          (case printTree_exn env args (path_append dir n)
                 (map_sum filesystem_error (map dirent_of) l) (level + 1)
                 (prefix @ (if ?last then ''    '' else ''|   '')) ?last
                 (if relp = [] then n else relp @ ''/'' @ n)
                 (?st1\<lparr>folders := folders ?st1 + 1\<rparr>) of
             Inl what \<Rightarrow> Inl what
           | Inr st2 \<Rightarrow>
               processEntries_exn env args dir level prefix relp (map dirent_of entries) (i + 1) st2)"
        using True
        by (subst processEntries_exn.simps)
          (simp add: Let_def Dir show_entry_exn_of [of _ _ _ _ _ _ "Dir n m l", simplified]
            split del: if_split cong: if_cong)
      have r: "processEntries env args dir level prefix relp entries i st =
          processEntries env args dir level prefix relp entries (i + 1) ?st2"
        using True by (subst processEntries.simps) (simp add: Let_def Dir)
      show ?thesis
        unfolding l r a sum.case by (rule b)
    qed
  qed
qed

lemma run_main_exn_of:
  "run_main_exn env args (map_sum filesystem_error (map dirent_of) root) =
     Inr (run_main env args root)"
  by (simp add: run_main_exn_def run_main_def printTree_exn_of Let_def)

text \<open>
  So the walker with exceptions accounts for the visits of the traversal wherever
  \<open>printTree\<close> does.
\<close>

lemma printTree_exn_accounts:
  "\<exists>st'. printTree_exn env args dir (map_sum filesystem_error (map dirent_of) lst) level prefix
            isLast relp st = Inr st' \<and>
         accounts env args dir prefix relp (walk env args level lst []) st st'"
  by (simp add: printTree_exn_of walk_root_accounts)

section \<open>Enumeration failures\<close>

text \<open>
  Two directories the process cannot list, next to a file \<open>z\<close>: \<open>gone\<close> has vanished
  between the listing of its parent and its own, so opening it throws; \<open>locked\<close> has no
  permission bit set, so opening it is refused.
\<close>

definition gone_root :: "iterator_error + dirent list" where
  "gone_root =
     Inr [Entry ''z'' (Inr False) (Inr 0x1A4) (Inr 1) (Inl (filesystem_error ''Not a directory'')),
          Entry ''gone'' (Inr True) (Inr 0x1ED) (Inl ''Is a directory'')
            (Inl (filesystem_error ''No such file or directory''))]"

definition locked_root :: "iterator_error + dirent list" where
  "locked_root =
     Inr [Entry ''z'' (Inr False) (Inr 0x1A4) (Inr 1) (Inl (filesystem_error ''Not a directory'')),
          Entry ''locked'' (Inr True) (Inr 0) (Inl ''Is a directory'') (Inl permission_denied)]"

text \<open>
  Claim C8, as stated, fails on the code.  The specification counts a refused permission
  among the enumeration failures that are reported once (section 7).  The iterator is
  built with \<^verbatim>\<open>skip_permission_denied\<close>: the run over \<open>locked_root\<close> writes nothing to the
  error stream and walks \<open>locked\<close> as an empty directory, which raises \<open>maxDepth\<close> to 2.
\<close>

theorem permission_denied_not_reported:
  "run_main_exn example_env example_args locked_root =
     Inr \<lparr>maxDepth = 2, folders = 1, files = 1, csvRows = [],
          cout = [''/x'', ''|-- locked'', ''`-- z'',
                  CHR 0x0A # ''The tree counts 2 layers, 1 folders, 1 files.''],
          cerr = []\<rparr>"
  by code_simp

text \<open>
  Claim C8, amended.  A call whose directory is within the depth limit and whose
  enumeration throws (the directory cannot be opened or iterated for another reason than
  a refused permission, or a filter throws) returns the state it got with one line more
  on the error stream: nothing is rendered, counted or exported, \<open>maxDepth\<close> is not
  touched, and the call returns normally.  When the loop of the parent reaches such a
  directory at index \<open>i\<close> and has shown it as an entry of the parent, it counts it as a
  folder, the call for it adds the error line, and the loop goes on with the sibling at
  index \<open>i + 1\<close>.  A directory that the process is not permitted to open is not reported:
  the call for it does what the call for an empty directory does.
\<close>

theorem thrown_enumeration_reported:
  assumes "\<not> (0 < maxLevel args \<and> maxLevel args < level)"
    and "enumerate_dir_exn env args lst = Inl what"
  shows "printTree_exn env args dir lst level prefix isLast relp st =
           Inr (st\<lparr>cerr := cerr st @ [failure_text dir what]\<rparr>) \<and>
         (i < length entries \<and> d_is_directory (entries ! i) = Inr True \<and>
          d_iterate (entries ! i) = lst \<and>
          show_entry_exn env args pdir pprefix prelp (i + 1 = length entries) True (entries ! i) pst =
            Inr st1 \<longrightarrow>
            processEntries_exn env args pdir (level - 1) pprefix prelp entries i pst =
              processEntries_exn env args pdir (level - 1) pprefix prelp entries (i + 1)
                (st1\<lparr>folders := folders st1 + 1,
                     cerr := cerr st1 @
                       [failure_text (path_append pdir (d_name (entries ! i))) what]\<rparr>)) \<and>
         printTree_exn env args dir (Inl permission_denied) level prefix isLast relp st =
           Inr (st\<lparr>maxDepth := max (maxDepth st) level\<rparr>) \<and>
         printTree_exn env args dir (Inl permission_denied) level prefix isLast relp st =
           printTree_exn env args dir (Inr []) level prefix isLast relp st"
proof -
  have call: "printTree_exn env args d lst level p l r s =
      Inr (s\<lparr>cerr := cerr s @ [failure_text d what]\<rparr>)" for d p l r s
    by (subst printTree_exn.simps) (simp add: assms report_failure_def)
  have loop: "processEntries_exn env args pdir (level - 1) pprefix prelp entries i pst =
              processEntries_exn env args pdir (level - 1) pprefix prelp entries (i + 1)
                (st1\<lparr>folders := folders st1 + 1,
                     cerr := cerr st1 @
                       [failure_text (path_append pdir (d_name (entries ! i))) what]\<rparr>)"
    if "i < length entries" and "d_is_directory (entries ! i) = Inr True"
      and "d_iterate (entries ! i) = lst"
      and "show_entry_exn env args pdir pprefix prelp (i + 1 = length entries) True (entries ! i) pst =
            Inr st1"
    using that by (subst processEntries_exn.simps) (simp add: Let_def call)
  have empty: "printTree_exn env args dir l level prefix isLast relp st =
      Inr (st\<lparr>maxDepth := max (maxDepth st) level\<rparr>)"
    if "enumerate_dir_exn env args l = Inr []" for l
    by (subst printTree_exn.simps) (simp add: assms(1) that processEntries_exn.simps)
  have "enumerate_dir_exn env args (Inl permission_denied) = Inr []"
    and "enumerate_dir_exn env args (Inr []) = Inr []"
    by (simp_all add: enumerate_dir_exn_def)
  with call loop empty show ?thesis
    by simp
qed

theorem thrown_enumeration_reported_witness:
  "\<not> (0 < maxLevel example_args \<and> maxLevel example_args < 2) \<and>
   enumerate_dir_exn example_env example_args (Inl (filesystem_error ''No such file or directory'')) =
     Inl ''No such file or directory'' \<and>
   printTree_exn example_env example_args ''/x/gone''
       (Inl (filesystem_error ''No such file or directory'')) 2 ''|   '' False ''gone''
       initial_process =
     Inr (initial_process\<lparr>cerr := [failure_text ''/x/gone'' ''No such file or directory'']\<rparr>) \<and>
   show_entry_exn example_env example_args ''/x'' '''' '''' False True
       (Entry ''gone'' (Inr True) (Inr 0x1ED) (Inl ''Is a directory'')
          (Inl (filesystem_error ''No such file or directory''))) initial_process =
     Inr (initial_process\<lparr>cout := [''|-- gone'']\<rparr>) \<and>
   processEntries_exn example_env example_args ''/x'' 1 '''' ''''
       [Entry ''gone'' (Inr True) (Inr 0x1ED) (Inl ''Is a directory'')
          (Inl (filesystem_error ''No such file or directory'')),
        Entry ''z'' (Inr False) (Inr 0x1A4) (Inr 1) (Inl (filesystem_error ''Not a directory''))]
       0 initial_process =
     processEntries_exn example_env example_args ''/x'' 1 '''' ''''
       [Entry ''gone'' (Inr True) (Inr 0x1ED) (Inl ''Is a directory'')
          (Inl (filesystem_error ''No such file or directory'')),
        Entry ''z'' (Inr False) (Inr 0x1A4) (Inr 1) (Inl (filesystem_error ''Not a directory''))]
       1
       (initial_process\<lparr>folders := 1, cout := [''|-- gone''],
          cerr := [failure_text ''/x/gone'' ''No such file or directory'']\<rparr>) \<and>
   printTree_exn example_env example_args ''/x/locked'' (Inl permission_denied) 2 ''|   '' False
       ''locked'' initial_process =
     Inr (initial_process\<lparr>maxDepth := 2\<rparr>) \<and>
   run_main_exn example_env example_args gone_root =
     Inr \<lparr>maxDepth = 1, folders = 1, files = 1, csvRows = [],
          cout = [''/x'', ''|-- gone'', ''`-- z'',
                  CHR 0x0A # ''The tree counts 1 layers, 1 folders, 1 files.''],
          cerr = [failure_text ''/x/gone'' ''No such file or directory'']\<rparr>"
proof -
  let ?gone = "Entry ''gone'' (Inr True) (Inr 0x1ED) (Inl ''Is a directory'')
          (Inl (filesystem_error ''No such file or directory''))"
  let ?es = "[?gone,
        Entry ''z'' (Inr False) (Inr 0x1A4) (Inr 1) (Inl (filesystem_error ''Not a directory''))]"
  let ?st1 = "initial_process\<lparr>cout := [''|-- gone'']\<rparr>"
  have h1: "\<not> (0 < maxLevel example_args \<and> maxLevel example_args < 2)"
    by (simp add: example_args_def)
  have h2: "enumerate_dir_exn example_env example_args
      (Inl (filesystem_error ''No such file or directory'')) = Inl ''No such file or directory''"
    by (simp add: enumerate_dir_exn_def)
  have h3: "(0::nat) < length ?es \<and> d_is_directory (?es ! 0) = Inr True \<and>
      d_iterate (?es ! 0) = Inl (filesystem_error ''No such file or directory'')"
    by simp
  have h4: "show_entry_exn example_env example_args ''/x'' '''' '''' False True ?gone initial_process =
      Inr ?st1"
    by (simp add: show_entry_exn_def entry_line_exn_def name_text_exn_def enable_colors_def
        example_args_def example_env_def initial_process_def Let_def)
  have r: "run_main_exn example_env example_args gone_root =
     Inr \<lparr>maxDepth = 1, folders = 1, files = 1, csvRows = [],
          cout = [''/x'', ''|-- gone'', ''`-- z'',
                  CHR 0x0A # ''The tree counts 1 layers, 1 folders, 1 files.''],
          cerr = [failure_text ''/x/gone'' ''No such file or directory'']\<rparr>"
    by code_simp
  have s: "?st1\<lparr>folders := folders ?st1 + 1,
                cerr := cerr ?st1 @ [failure_text (path_append ''/x'' (d_name (?es ! 0)))
                                       ''No such file or directory'']\<rparr> =
      initial_process\<lparr>folders := 1, cout := [''|-- gone''],
          cerr := [failure_text ''/x/gone'' ''No such file or directory'']\<rparr>"
    by (simp add: initial_process_def path_append_def)
  from thrown_enumeration_reported [OF h1 h2, where dir = "''/x/gone''" and prefix = "''|   ''"
      and isLast = False and relp = "''gone''" and st = initial_process
      and entries = ?es and i = 0 and pdir = "''/x''" and pprefix = "''''" and prelp = "''''"
      and pst = initial_process and ?st1.0 = ?st1]
    h3 h4
  have a: "printTree_exn example_env example_args ''/x/gone''
       (Inl (filesystem_error ''No such file or directory'')) 2 ''|   '' False ''gone''
       initial_process =
     Inr (initial_process\<lparr>cerr := cerr initial_process @
            [failure_text ''/x/gone'' ''No such file or directory'']\<rparr>)"
    and l: "processEntries_exn example_env example_args ''/x'' (2 - 1) '''' '''' ?es 0 initial_process =
      processEntries_exn example_env example_args ''/x'' (2 - 1) '''' '''' ?es (0 + 1)
        (?st1\<lparr>folders := folders ?st1 + 1,
                cerr := cerr ?st1 @ [failure_text (path_append ''/x'' (d_name (?es ! 0)))
                                       ''No such file or directory'']\<rparr>)"
    by simp_all
  from thrown_enumeration_reported [OF h1 h2, where dir = "''/x/locked''" and prefix = "''|   ''"
      and isLast = False and relp = "''locked''" and st = initial_process]
  have b: "printTree_exn example_env example_args ''/x/locked'' (Inl permission_denied) 2 ''|   '' False
       ''locked'' initial_process =
     Inr (initial_process\<lparr>maxDepth := 2\<rparr>)"
    by (simp add: initial_process_def)
  from a have a': "printTree_exn example_env example_args ''/x/gone''
       (Inl (filesystem_error ''No such file or directory'')) 2 ''|   '' False ''gone''
       initial_process =
     Inr (initial_process\<lparr>cerr := [failure_text ''/x/gone'' ''No such file or directory'']\<rparr>)"
    by (simp add: initial_process_def)
  from l have l': "processEntries_exn example_env example_args ''/x'' 1 '''' '''' ?es 0 initial_process =
      processEntries_exn example_env example_args ''/x'' 1 '''' '''' ?es 1
        (initial_process\<lparr>folders := 1, cout := [''|-- gone''],
          cerr := [failure_text ''/x/gone'' ''No such file or directory'']\<rparr>)"
    unfolding s by simp
  from h1 h2 a' h4 l' b r show ?thesis
    by blast
qed

section \<open>The size query and the status query\<close>

text \<open>
  The row of an entry asks for the size inside a \<^verbatim>\<open>try\<close> and for the permissions outside
  of one.  When the permissions can be read, the row is built whatever the size query
  does, with 0 bytes for a directory and for a file whose size query throws.  When they
  cannot, the exception of \<^verbatim>\<open>getPermissions\<close> leaves the loop body, in the export for every
  entry and in the rendering with \<^verbatim>\<open>showPerms\<close>.
\<close>

lemma entry_row_exn_bytes:
  "d_status entry = Inr p \<Longrightarrow>
   \<exists>row. entry_row_exn dir relp isDir entry = Inr row \<and>
     bytes row = (if isDir then 0
                  else (case d_file_size entry of Inl what \<Rightarrow> 0 | Inr b \<Rightarrow> b))"
  by (simp add: entry_row_exn_def entry_size_exn_def getPermissions_exn_def Let_def
      split: sum.splits)

lemma show_entry_exn_status:
  "d_status entry = Inl what \<Longrightarrow> csvOut args \<noteq> [] \<or> showPerms args \<Longrightarrow>
   show_entry_exn env args dir prefix relp entryIsLast isDir entry st = Inl what"
  by (auto simp: show_entry_exn_def entry_row_exn_def entry_line_exn_def
      getPermissions_exn_def Let_def)

text \<open>
  Two roots.  In \<open>unsearchable_root\<close> the directory \<open>d\<close> may be listed but not searched
  (mode \<^verbatim>\<open>r--r--r--\<close>): its listing gives the name and the type of the file \<open>f\<close>, and every
  query that has to look at \<open>f\<close> itself is refused, the size like the status.  In
  \<open>pipe_root\<close> the entry \<open>p\<close> is a named pipe: it has a status and no file size.
\<close>

definition unsearchable_root :: "iterator_error + dirent list" where
  "unsearchable_root =
     Inr [Entry ''d'' (Inr True) (Inr 0x124) (Inl ''Is a directory'')
            (Inr [Entry ''f'' (Inr False) (Inl ''status: Permission denied'')
                    (Inl ''cannot get file size: Permission denied'')
                    (Inl (filesystem_error ''Not a directory''))])]"

definition pipe_root :: "iterator_error + dirent list" where
  "pipe_root =
     Inr [Entry ''p'' (Inr False) (Inr 0x1A4) (Inl ''cannot get file size: Operation not supported'')
            (Inl (filesystem_error ''Not a directory''))]"

text \<open>
  Claim C9 (a size query that fails is swallowed, the size is 0, and neither the run nor
  the processing of the entry is aborted) fails on the code.  The export over
  \<open>pipe_root\<close> does what the claim says: the row of \<open>p\<close> has 0 bytes.  The export over
  \<open>unsearchable_root\<close> swallows the exception of the size query of \<open>f\<close> and is then ended by
  the exception of the status query on the next line, which nothing catches: no row of
  \<open>f\<close>, no export.  The rendering with sizes and permissions ends the same way.
\<close>

theorem status_failure_aborts:
  "run_main_exn example_env (example_args\<lparr>csvOut := ''out.tsv''\<rparr>) unsearchable_root =
     Inl ''status: Permission denied'' \<and>
   run_main_exn example_env (example_args\<lparr>showSize := True, showPerms := True\<rparr>)
       unsearchable_root =
     Inl ''status: Permission denied'' \<and>
   run_main_exn example_env (example_args\<lparr>csvOut := ''out.tsv''\<rparr>) pipe_root =
     Inr \<lparr>maxDepth = 1, folders = 0, files = 1,
          csvRows = [\<lparr>relpath = ''p'', name = ''p'', type = ''file'', perms = ''rw-r--r--'',
                      bytes = 0, created = '''', modified = ''''\<rparr>],
          cout = [], cerr = []\<rparr>"
  by code_simp

end
